theory Spec2Isabelle
  imports Complex_Main "HOL-Library.Word"
begin

unbundle bit_operations_syntax

section \<open>The WebSocket relay of ws-server.js\<close>

text \<open>
  The development embeds \<^verbatim>\<open>real-time communication/ws-server.js\<close>: the frame
  codec (\<^verbatim>\<open>parseFrame\<close>, \<^verbatim>\<open>buildTextFrame\<close>), the registry of
  clients and rooms with the relay dispatcher (\<^verbatim>\<open>handleJsonMessage\<close>,
  \<^verbatim>\<open>cleanupClient\<close>) and the per-read decode loop of the \<^verbatim>\<open>data\<close>
  event handler.

  A Node \<^verbatim>\<open>Buffer\<close> is a list of bytes. A JavaScript string is a list of UTF-16
  code units, so that \<^verbatim>\<open>str.length\<close> is the length of the list.
\<close>

type_synonym byte = "8 word"
type_synonym buffer = "byte list"
type_synonym jsstring = "16 word list"

text \<open>A string literal of the source, whose characters are all ASCII.\<close>

definition jsstr :: "string \<Rightarrow> jsstring" where
  "jsstr s = map (\<lambda>c. of_nat (of_char c)) s"

subsection \<open>The platform's UTF-8 codec\<close>

text \<open>
  \<^verbatim>\<open>Buffer.from(str, 'utf8')\<close> writes every code point of the string in UTF-8; a
  surrogate code unit that is not part of a pair is written as U+FFFD (EF BF BD).
\<close>

definition utf8_cp :: "nat \<Rightarrow> buffer" where
  "utf8_cp cp =
     (if cp < 0x80 then [of_nat cp]
      else if cp < 0x800 then [of_nat (0xC0 + cp div 64), of_nat (0x80 + cp mod 64)]
      else if cp < 0x10000 then
        [of_nat (0xE0 + cp div 4096), of_nat (0x80 + cp div 64 mod 64),
         of_nat (0x80 + cp mod 64)]
      else
        [of_nat (0xF0 + cp div 262144), of_nat (0x80 + cp div 4096 mod 64),
         of_nat (0x80 + cp div 64 mod 64), of_nat (0x80 + cp mod 64)])"

definition is_high_surrogate :: "16 word \<Rightarrow> bool" where
  "is_high_surrogate u = (0xD800 \<le> unat u \<and> unat u \<le> 0xDBFF)"

definition is_low_surrogate :: "16 word \<Rightarrow> bool" where
  "is_low_surrogate u = (0xDC00 \<le> unat u \<and> unat u \<le> 0xDFFF)"

definition pair_cp :: "16 word \<Rightarrow> 16 word \<Rightarrow> nat" where
  "pair_cp hi lo = 0x10000 + (unat hi - 0xD800) * 1024 + (unat lo - 0xDC00)"

fun Buffer_from :: "jsstring \<Rightarrow> buffer" where
  "Buffer_from [] = []"
| "Buffer_from [u] =
     (if is_high_surrogate u \<or> is_low_surrogate u then utf8_cp 0xFFFD else utf8_cp (unat u))"
| "Buffer_from (u # v # rest) =
     (if is_high_surrogate u then
        (if is_low_surrogate v then utf8_cp (pair_cp u v) @ Buffer_from rest
         else utf8_cp 0xFFFD @ Buffer_from (v # rest))
      else if is_low_surrogate u then utf8_cp 0xFFFD @ Buffer_from (v # rest)
      else utf8_cp (unat u) @ Buffer_from (v # rest))"

text \<open>
  \<^verbatim>\<open>buf.toString('utf8')\<close> decodes with replacement: every maximal ill-formed
  prefix of a sequence becomes one U+FFFD and decoding goes on at the byte that did not
  fit. The decoder state is the code point collected so far, the number of continuation
  bytes still needed, and the range allowed for the next byte.
\<close>

definition utf16_cp :: "nat \<Rightarrow> jsstring" where
  "utf16_cp cp =
     (if cp < 0x10000 then [of_nat cp]
      else [of_nat (0xD800 + (cp - 0x10000) div 1024),
            of_nat (0xDC00 + (cp - 0x10000) mod 1024)])"

fun utf8_dec :: "nat \<Rightarrow> nat \<Rightarrow> nat \<Rightarrow> nat \<Rightarrow> buffer \<Rightarrow> jsstring" where
  "utf8_dec cp needed lower upper [] = (if needed = 0 then [] else [0xFFFD])"
| "utf8_dec cp needed lower upper (b # bs) =
     (let x = unat b in
      if needed = 0 then
        (if x < 0x80 then of_nat x # utf8_dec 0 0 0x80 0xBF bs
         else if 0xC2 \<le> x \<and> x \<le> 0xDF then utf8_dec (x - 0xC0) 1 0x80 0xBF bs
         else if 0xE0 \<le> x \<and> x \<le> 0xEF then
           utf8_dec (x - 0xE0) 2 (if x = 0xE0 then 0xA0 else 0x80)
             (if x = 0xED then 0x9F else 0xBF) bs
         else if 0xF0 \<le> x \<and> x \<le> 0xF4 then
           utf8_dec (x - 0xF0) 3 (if x = 0xF0 then 0x90 else 0x80)
             (if x = 0xF4 then 0x8F else 0xBF) bs
         else 0xFFFD # utf8_dec 0 0 0x80 0xBF bs)
      else if x < lower \<or> upper < x then 0xFFFD # utf8_dec 0 0 0x80 0xBF (b # bs)
      else if needed = 1 then utf16_cp (cp * 64 + (x - 0x80)) @ utf8_dec 0 0 0x80 0xBF bs
      else utf8_dec (cp * 64 + (x - 0x80)) (needed - 1) 0x80 0xBF bs)"

definition toString_utf8 :: "buffer \<Rightarrow> jsstring" where
  "toString_utf8 bs = utf8_dec 0 0 0x80 0xBF bs"


text \<open>
  \<^verbatim>\<open>str.toWellFormed()\<close>: the string with every unpaired surrogate replaced by
  U+FFFD. \<^verbatim>\<open>str.isWellFormed()\<close>: the string has no unpaired surrogate.
\<close>

fun toWellFormed :: "jsstring \<Rightarrow> jsstring" where
  "toWellFormed [] = []"
| "toWellFormed [u] = (if is_high_surrogate u \<or> is_low_surrogate u then [0xFFFD] else [u])"
| "toWellFormed (u # v # rest) =
     (if is_high_surrogate u then
        (if is_low_surrogate v then u # v # toWellFormed rest
         else 0xFFFD # toWellFormed (v # rest))
      else if is_low_surrogate u then 0xFFFD # toWellFormed (v # rest)
      else u # toWellFormed (v # rest))"

fun isWellFormed :: "jsstring \<Rightarrow> bool" where
  "isWellFormed [] = True"
| "isWellFormed [u] = (\<not> is_high_surrogate u \<and> \<not> is_low_surrogate u)"
| "isWellFormed (u # v # rest) =
     (if is_high_surrogate u then is_low_surrogate v \<and> isWellFormed rest
      else \<not> is_low_surrogate u \<and> isWellFormed (v # rest))"

subsection \<open>Buffers and numbers\<close>

datatype error = RangeError | TypeError

text \<open>\<^verbatim>\<open>buf.slice(start, end)\<close> for \<open>0 \<le> start \<le> end\<close>: both ends are clamped
  to the length of the buffer.\<close>

definition slice :: "buffer \<Rightarrow> nat \<Rightarrow> nat \<Rightarrow> buffer" where
  "slice buf start end = take (end - start) (drop start buf)"

text \<open>Big-endian integers: the value of a byte sequence, and the \<open>k\<close> low bytes of a number.\<close>

definition be_nat :: "buffer \<Rightarrow> nat" where
  "be_nat bs = foldl (\<lambda>acc b. acc * 256 + unat b) 0 bs"

fun be_bytes :: "nat \<Rightarrow> nat \<Rightarrow> buffer" where
  "be_bytes 0 n = []"
| "be_bytes (Suc k) n = of_nat (n div 256 ^ k) # be_bytes k n"

text \<open>The reads throw a \<^verbatim>\<open>RangeError\<close> when the bytes are not all inside the buffer.\<close>

definition readUInt16BE :: "buffer \<Rightarrow> nat \<Rightarrow> error + nat" where
  "readUInt16BE buf offset =
     (if offset + 2 \<le> length buf then Inr (be_nat (slice buf offset (offset + 2)))
      else Inl RangeError)"

definition readBigUInt64BE :: "buffer \<Rightarrow> nat \<Rightarrow> error + nat" where
  "readBigUInt64BE buf offset =
     (if offset + 8 \<le> length buf then Inr (be_nat (slice buf offset (offset + 8)))
      else Inl RangeError)"

text \<open>
  A JavaScript number is a double. The numbers of the frame codec are non-negative
  integers, and a double holds every integer below \<open>2 ^ 53\<close> exactly; above, the value is
  rounded to 53 significant bits, ties to even. \<open>round53\<close> is that rounding:
  \<^verbatim>\<open>Number(bigint)\<close> is \<open>round53\<close> of the integer, and the sum of two such
  numbers is \<open>round53\<close> of the exact sum.
\<close>

function exp53 :: "nat \<Rightarrow> nat" where
  "exp53 n = (if n < 2 ^ 53 then 0 else Suc (exp53 (n div 2)))"
  by pat_completeness auto
termination
  by (relation "measure id") auto

declare exp53.simps [simp del]

definition round53 :: "nat \<Rightarrow> nat" where
  "round53 n =
     (if n < 2 ^ 53 then n
      else let e = exp53 n; q = n div 2 ^ e; r = n mod 2 ^ e
           in if 2 ^ e < 2 * r \<or> (2 * r = 2 ^ e \<and> odd q) then (q + 1) * 2 ^ e else q * 2 ^ e)"

definition Number :: "nat \<Rightarrow> nat" where
  "Number n = round53 n"

definition js_add :: "nat \<Rightarrow> nat \<Rightarrow> nat" where
  "js_add a b = round53 (a + b)"

subsection \<open>The frame codec\<close>

record frame =
  fin :: bool
  opcode :: byte
  payload :: jsstring
  frameLen :: nat

text \<open>
  \<^verbatim>\<open>payload[i] ^= mask[i % 4]\<close>; a mask index outside the (possibly clamped) mask
  slice reads \<^verbatim>\<open>undefined\<close>, which leaves the byte as it is. The loop writes into
  the receive buffer, but only into the bytes that the caller drops with
  \<^verbatim>\<open>recvBuffer.slice(frameLen)\<close>, so the buffer is not returned.
\<close>

definition unmask :: "buffer \<Rightarrow> buffer \<Rightarrow> buffer" where
  "unmask key bytes =
     map (\<lambda>(i, b). if i mod 4 < length key then b XOR key ! (i mod 4) else b)
       (enumerate 0 bytes)"

definition parseFrame :: "buffer \<Rightarrow> error + frame option" where
  "parseFrame buffer =
     (if length buffer < 2 then Inr None
      else
        let first = buffer ! 0;
            second = buffer ! 1;
            fin' = (first AND 0x80 \<noteq> 0);
            opcode' = first AND 0x0f;
            masked = (second AND 0x80 \<noteq> 0);
            payloadLen = unat (second AND 0x7f);
            offset = 2
        in case (if payloadLen = 126 then
                   (case readUInt16BE buffer offset of
                      Inl e \<Rightarrow> Inl e | Inr n \<Rightarrow> Inr (n, offset + 2))
                 else if payloadLen = 127 then
                   (case readBigUInt64BE buffer offset of
                      Inl e \<Rightarrow> Inl e | Inr n \<Rightarrow> Inr (Number n, offset + 8))
                 else Inr (payloadLen, offset)) of
             Inl e \<Rightarrow> Inl e
           | Inr (payloadLen, offset) \<Rightarrow>
               let key = (if masked then slice buffer offset (offset + 4) else []);
                   offset = (if masked then offset + 4 else offset);
                   payload' = slice buffer offset (js_add offset payloadLen);
                   payload' = (if masked then unmask key payload' else payload')
               in Inr (Some \<lparr>fin = fin', opcode = opcode', payload = toString_utf8 payload',
                              frameLen = js_add offset payloadLen\<rparr>))"

text \<open>
  \<^verbatim>\<open>writeBigUInt64BE\<close> throws for a length of \<open>2 ^ 64\<close> or more; no string is that
  long (the engine bounds the length of a string below \<open>2 ^ 30\<close> code units), so the
  eight bytes are the low 64 bits of the length.
\<close>

definition buildTextFrame :: "jsstring \<Rightarrow> buffer" where
  "buildTextFrame str =
     (let payload' = Buffer_from str;
          len = length payload';
          header =
            (if len < 126 then [0x81, of_nat len]
             else if len < 65536 then [0x81, 126] @ be_bytes 2 len
             else [0x81, 127] @ be_bytes 8 len)
      in header @ payload')"


subsection \<open>JavaScript values and the built-ins of the runtime\<close>

text \<open>
  A value that \<^verbatim>\<open>JSON.parse\<close> can put into a property, or \<^verbatim>\<open>undefined\<close>
  for a property that is absent. A number is a finite double, which is a rational
  (\<open>-0\<close> is \<open>0\<close>: both are falsy and the same \<^verbatim>\<open>Map\<close> key), or an infinity
  (\<open>JInfinity True\<close> is the positive one).
  An object or an array is known by its identity only: two of them are the same
  \<^verbatim>\<open>Map\<close> key when they are the same object.
\<close>

datatype jsval =
    JUndefined
  | JNull
  | JBool bool
  | JNum rat
  | JInfinity bool
  | JStr jsstring
  | JRef nat

fun truthy :: "jsval \<Rightarrow> bool" where
  "truthy JUndefined = False"
| "truthy JNull = False"
| "truthy (JBool b) = b"
| "truthy (JNum n) = (n \<noteq> 0)"
| "truthy (JInfinity _) = True"
| "truthy (JStr s) = (s \<noteq> [])"
| "truthy (JRef _) = True"

text \<open>\<^verbatim>\<open>a || b\<close>\<close>

definition js_or :: "jsval \<Rightarrow> jsval \<Rightarrow> jsval" where
  "js_or a b = (if truthy a then a else b)"

text \<open>An object literal of the source, as it is handed to \<^verbatim>\<open>JSON.stringify\<close>.\<close>

datatype jsobj =
    Val jsval
  | Arr "jsobj list"
  | Obj "(string \<times> jsobj) list"

text \<open>
  The result of \<^verbatim>\<open>JSON.parse\<close>, as far as the dispatcher reads it: the value
  \<^verbatim>\<open>null\<close>, on which a property access throws, or any other value with its
  properties \<^verbatim>\<open>type\<close>, \<^verbatim>\<open>room\<close>, \<^verbatim>\<open>name\<close>, \<^verbatim>\<open>to\<close>
  and \<^verbatim>\<open>text\<close> (all \<^verbatim>\<open>undefined\<close> on a number, a string, a boolean or
  an array).
\<close>

record message =
  p_type :: jsval
  p_room :: jsval
  p_name :: jsval
  p_to :: jsval
  p_text :: jsval

datatype parsed = ParsedNull | Parsed message

text \<open>
  The built-ins that the server calls and that are not code of the repository are
  parameters of the model: \<^verbatim>\<open>JSON.parse\<close> (\<open>None\<close> when it throws a
  \<^verbatim>\<open>SyntaxError\<close>), \<^verbatim>\<open>JSON.stringify\<close>, the decimal text of a finite
  number, the string conversion of an object or an array (\<open>None\<close> when it throws a
  \<^verbatim>\<open>TypeError\<close>, as it does on \<^verbatim>\<open>{"toString": null}\<close>, whose
  \<^verbatim>\<open>toString\<close> cannot be called and whose \<^verbatim>\<open>valueOf\<close> gives the
  object back), and the SHA-1 digest in base64 of the handshake.
\<close>

record runtime =
  JSON_parse :: "jsstring \<Rightarrow> parsed option"
  JSON_stringify :: "jsobj \<Rightarrow> jsstring"
  Number_toString :: "rat \<Rightarrow> jsstring"
  Object_toString :: "nat \<Rightarrow> jsstring option"
  sha1_base64 :: "jsstring \<Rightarrow> jsstring"

text \<open>
  \<^verbatim>\<open>`${v}`\<close>, the string conversion of a template literal: a string is itself,
  the other primitive values have their text, and the conversion of an object or an array
  can throw.
\<close>

fun template :: "runtime \<Rightarrow> jsval \<Rightarrow> error + jsstring" where
  "template rt JUndefined = Inr (jsstr ''undefined'')"
| "template rt JNull = Inr (jsstr ''null'')"
| "template rt (JBool b) = Inr (jsstr (if b then ''true'' else ''false''))"
| "template rt (JNum n) = Inr (Number_toString rt n)"
| "template rt (JInfinity b) = Inr (jsstr (if b then ''Infinity'' else ''-Infinity''))"
| "template rt (JStr s) = Inr s"
| "template rt (JRef r) =
     (case Object_toString rt r of None \<Rightarrow> Inl TypeError | Some s \<Rightarrow> Inr s)"

subsection \<open>Sockets, clients and rooms\<close>

text \<open>
  A socket is an object shared by the \<^verbatim>\<open>clients\<close> map and the closure of its
  connection, so the sockets live in a store and are named by their address. Of a socket
  the model keeps whether it is destroyed, whether \<^verbatim>\<open>end()\<close> was called, and the
  chunks written to it. A write to a socket that is destroyed or ended sends nothing.
\<close>

type_synonym sock = nat

record socket_state =
  destroyed :: bool
  ended :: bool
  written :: "buffer list"

text \<open>
  A \<^verbatim>\<open>Set\<close> is the list of its elements in insertion order, without duplicates.
\<close>

definition set_add :: "'a \<Rightarrow> 'a list \<Rightarrow> 'a list" where
  "set_add x xs = (if x \<in> set xs then xs else xs @ [x])"

definition set_delete :: "'a \<Rightarrow> 'a list \<Rightarrow> 'a list" where
  "set_delete x xs = removeAll x xs"

record client =
  socket :: sock
  crooms :: "jsval list"
  name :: jsval

record server =
  clients :: "jsval \<rightharpoonup> client"
  rooms :: "jsval \<rightharpoonup> jsval list"
  nextId :: nat
  sockets :: "sock \<Rightarrow> socket_state"

definition socket_write :: "sock \<Rightarrow> buffer \<Rightarrow> server \<Rightarrow> server" where
  "socket_write s chunk st =
     (if destroyed (sockets st s) \<or> ended (sockets st s) then st
      else st\<lparr>sockets := (sockets st)(s := (sockets st s)\<lparr>written := written (sockets st s) @ [chunk]\<rparr>)\<rparr>)"

definition socket_destroy :: "sock \<Rightarrow> server \<Rightarrow> server" where
  "socket_destroy s st = st\<lparr>sockets := (sockets st)(s := (sockets st s)\<lparr>destroyed := True\<rparr>)\<rparr>"

definition socket_end :: "sock \<Rightarrow> server \<Rightarrow> server" where
  "socket_end s st = st\<lparr>sockets := (sockets st)(s := (sockets st s)\<lparr>ended := True\<rparr>)\<rparr>"

subsection \<open>Sending\<close>

definition sendToClient :: "runtime \<Rightarrow> jsval \<Rightarrow> jsobj \<Rightarrow> server \<Rightarrow> server" where
  "sendToClient rt clientId obj st =
     (case clients st clientId of
        None \<Rightarrow> st
      | Some c \<Rightarrow>
          if destroyed (sockets st (socket c)) then st
          else socket_write (socket c) (buildTextFrame (JSON_stringify rt obj)) st)"

text \<open>The body of the loop over the members of a room: one member, with the frame to send.\<close>

definition broadcast_step :: "jsval \<Rightarrow> buffer \<Rightarrow> server \<Rightarrow> jsval \<Rightarrow> server" where
  "broadcast_step excludeId frame' st cid =
     (if cid = excludeId then st
      else (case clients st cid of
              None \<Rightarrow> st
            | Some c \<Rightarrow>
                if \<not> destroyed (sockets st (socket c)) then socket_write (socket c) frame' st
                else st))"

definition broadcastRoom :: "runtime \<Rightarrow> jsval \<Rightarrow> jsobj \<Rightarrow> jsval \<Rightarrow> server \<Rightarrow> server" where
  "broadcastRoom rt room obj excludeId st =
     (case rooms st room of
        None \<Rightarrow> st
      | Some s \<Rightarrow>
          let msg = JSON_stringify rt obj;
              frame' = buildTextFrame msg
          in foldl (broadcast_step excludeId frame') st s)"

subsection \<open>The relay dispatcher\<close>

text \<open>
  The notice \<^verbatim>\<open>{type: 'notice', message: `${who} joined`, from: clientId}\<close>, with
  the word of the occasion. Building it throws when the conversion of the name throws.
\<close>

definition notice :: "runtime \<Rightarrow> jsval \<Rightarrow> string \<Rightarrow> jsval \<Rightarrow> error + jsobj" where
  "notice rt who what clientId =
     (case template rt who of
        Inl e \<Rightarrow> Inl e
      | Inr t \<Rightarrow>
          Inr (Obj [(''type'', Val (JStr (jsstr ''notice''))),
                    (''message'', Val (JStr (t @ jsstr what))),
                    (''from'', Val clientId)]))"

definition error_reply :: "string \<Rightarrow> jsobj" where
  "error_reply m = Obj [(''type'', Val (JStr (jsstr ''error''))), (''message'', Val (JStr (jsstr m)))]"

definition handleParsed :: "runtime \<Rightarrow> jsval \<Rightarrow> parsed \<Rightarrow> server \<Rightarrow> error + server" where
  "handleParsed rt clientId p st =
     (case p of
        ParsedNull \<Rightarrow> Inl TypeError
      | Parsed m \<Rightarrow>
          if p_type m = JStr (jsstr ''join'') then
            (case clients st clientId of
               None \<Rightarrow> Inl TypeError
             | Some c \<Rightarrow>
                 let room = js_or (p_room m) (JStr (jsstr ''lobby''));
                     c = c\<lparr>crooms := set_add room (crooms c)\<rparr>;
                     members = (case rooms st room of None \<Rightarrow> [] | Some s \<Rightarrow> s);
                     c = c\<lparr>name := js_or (p_name m) (js_or (name c) clientId)\<rparr>;
                     st = st\<lparr>clients := (clients st)(clientId \<mapsto> c),
                             rooms := (rooms st)(room \<mapsto> set_add clientId members)\<rparr>;
                     st = sendToClient rt clientId
                            (Obj [(''type'', Val (JStr (jsstr ''joined''))), (''room'', Val room),
                                  (''id'', Val clientId)]) st
                 in (case notice rt (name c) '' joined'' clientId of
                       Inl e \<Rightarrow> Inl e
                     | Inr n \<Rightarrow> Inr (broadcastRoom rt room n clientId st)))
          else if p_type m = JStr (jsstr ''leave'') then
            (let room = p_room m
             in if truthy room \<and> rooms st room \<noteq> None then
                  (case clients st clientId of
                     None \<Rightarrow> Inl TypeError
                   | Some c \<Rightarrow>
                       let st = st\<lparr>rooms := (rooms st)(room \<mapsto> set_delete clientId (the (rooms st room)))\<rparr>;
                           c = c\<lparr>crooms := set_delete room (crooms c)\<rparr>;
                           st = st\<lparr>clients := (clients st)(clientId \<mapsto> c)\<rparr>;
                           st = sendToClient rt clientId
                                  (Obj [(''type'', Val (JStr (jsstr ''left''))), (''room'', Val room)]) st
                       in (case notice rt (name c) '' left'' clientId of
                             Inl e \<Rightarrow> Inl e
                           | Inr n \<Rightarrow> Inr (broadcastRoom rt room n clientId st)))
                else Inr st)
          else if p_type m = JStr (jsstr ''msg'') then
            (if truthy (p_to m) then
               (let toId = p_to m;
                    st = sendToClient rt toId
                           (Obj [(''type'', Val (JStr (jsstr ''msg''))), (''from'', Val clientId),
                                 (''text'', Val (p_text m)), (''private'', Val (JBool True))]) st
                in Inr (sendToClient rt clientId
                          (Obj [(''type'', Val (JStr (jsstr ''msg''))), (''from'', Val clientId),
                                (''to'', Val toId), (''text'', Val (p_text m)),
                                (''private'', Val (JBool True))]) st))
             else
               (let room = p_room m
                in if \<not> truthy room then Inr (sendToClient rt clientId (error_reply ''no_room'') st)
                   else Inr (broadcastRoom rt room
                               (Obj [(''type'', Val (JStr (jsstr ''msg''))), (''from'', Val clientId),
                                     (''text'', Val (p_text m)), (''room'', Val room)])
                               clientId st)))
          else if p_type m = JStr (jsstr ''list'') then
            (let room = js_or (p_room m) (JStr (jsstr ''lobby''));
                 set' = (case rooms st room of None \<Rightarrow> [] | Some s \<Rightarrow> s);
                 members =
                   map (\<lambda>id. Obj [(''id'', Val id),
                                  (''name'', Val (case clients st id of
                                                    None \<Rightarrow> JUndefined | Some c \<Rightarrow> name c))])
                     set'
             in Inr (sendToClient rt clientId
                       (Obj [(''type'', Val (JStr (jsstr ''list''))), (''room'', Val room),
                             (''members'', Arr members)]) st))
          else Inr (sendToClient rt clientId (error_reply ''unknown_type'') st))"

definition handleJsonMessage :: "runtime \<Rightarrow> jsval \<Rightarrow> jsstring \<Rightarrow> server \<Rightarrow> error + server" where
  "handleJsonMessage rt clientId data st =
     (case JSON_parse rt data of
        None \<Rightarrow> Inr (sendToClient rt clientId (error_reply ''invalid_json'') st)
      | Some p \<Rightarrow> handleParsed rt clientId p st)"

subsection \<open>Cleanup\<close>

text \<open>
  The body of the loop over the rooms of the client that goes away: the identifier leaves
  the set of the room, then the notice is built and broadcast.
\<close>

definition cleanup_step :: "runtime \<Rightarrow> jsval \<Rightarrow> client \<Rightarrow> server \<Rightarrow> jsval \<Rightarrow> error + server" where
  "cleanup_step rt clientId c st room =
     (case rooms st room of
        None \<Rightarrow> Inr st
      | Some s \<Rightarrow>
          let st = st\<lparr>rooms := (rooms st)(room \<mapsto> set_delete clientId s)\<rparr>
          in (case notice rt (name c) '' disconnected'' clientId of
                Inl e \<Rightarrow> Inl e
              | Inr n \<Rightarrow> Inr (broadcastRoom rt room n clientId st)))"

text \<open>The loop itself, which an exception leaves.\<close>

fun cleanup_rooms :: "runtime \<Rightarrow> jsval \<Rightarrow> client \<Rightarrow> server \<Rightarrow> jsval list \<Rightarrow> error + server" where
  "cleanup_rooms rt clientId c st [] = Inr st"
| "cleanup_rooms rt clientId c st (room # rs) =
     (case cleanup_step rt clientId c st room of
        Inl e \<Rightarrow> Inl e
      | Inr st' \<Rightarrow> cleanup_rooms rt clientId c st' rs)"

definition cleanupClient :: "runtime \<Rightarrow> jsval \<Rightarrow> server \<Rightarrow> error + server" where
  "cleanupClient rt clientId st =
     (case clients st clientId of
        None \<Rightarrow> Inr st
      | Some c \<Rightarrow>
          (case cleanup_rooms rt clientId c st (crooms c) of
             Inl e \<Rightarrow> Inl e
           | Inr st \<Rightarrow>
               let st = socket_destroy (socket c) st
               in Inr (st\<lparr>clients := (clients st)(clientId := None)\<rparr>)))"

subsection \<open>Connections\<close>

text \<open>\<^verbatim>\<open>'c' + (nextId++)\<close>: the counter in decimal.\<close>

function decimal :: "nat \<Rightarrow> string" where
  "decimal n =
     (if n < 10 then [''0123456789'' ! n]
      else decimal (n div 10) @ [''0123456789'' ! (n mod 10)])"
  by pat_completeness auto
termination
  by (relation "measure id") auto

declare decimal.simps [simp del]

text \<open>The number that a string of digits writes.\<close>

definition decimal_value :: "string \<Rightarrow> nat" where
  "decimal_value ds = foldl (\<lambda>a c. a * 10 + (of_char c - 48)) 0 ds"

definition client_id :: "nat \<Rightarrow> jsval" where
  "client_id k = JStr (jsstr (CHR ''c'' # decimal k))"

definition genClientId :: "server \<Rightarrow> jsval \<times> server" where
  "genClientId st = (client_id (nextId st), st\<lparr>nextId := nextId st + 1\<rparr>)"

definition GUID :: jsstring where
  "GUID = jsstr ''258EAFA5-E914-47DA-95CA-C5AB0DC85B11''"

definition computeAccept :: "runtime \<Rightarrow> jsstring \<Rightarrow> jsstring" where
  "computeAccept rt key = sha1_base64 rt (key @ GUID)"

definition crlf :: jsstring where
  "crlf = [0x0D, 0x0A]"

text \<open>The variables of the closure that the upgrade handler makes for one connection.\<close>

record connection =
  conn_clientId :: jsval
  conn_socket :: sock
  conn_recvBuffer :: buffer

text \<open>
  The upgrade handler, with the value of the \<^verbatim>\<open>sec-websocket-key\<close> header (if
  any) and the socket of the request. Without a key it answers 400 and makes no connection.
\<close>

definition on_upgrade :: "runtime \<Rightarrow> jsstring option \<Rightarrow> sock \<Rightarrow> server \<Rightarrow> server \<times> connection option" where
  "on_upgrade rt key s st =
     (case (case key of None \<Rightarrow> None | Some k \<Rightarrow> if k = [] then None else Some k) of
        None \<Rightarrow>
          (socket_destroy s
             (socket_write s (Buffer_from (jsstr ''HTTP/1.1 400 Bad Request'' @ crlf @ crlf)) st),
           None)
      | Some k \<Rightarrow>
          let accept = computeAccept rt k;
              response =
                jsstr ''HTTP/1.1 101 Switching Protocols'' @ crlf @
                jsstr ''Upgrade: websocket'' @ crlf @
                jsstr ''Connection: Upgrade'' @ crlf @
                jsstr ''Sec-WebSocket-Accept: '' @ accept @ crlf @ crlf;
              st = socket_write s (Buffer_from response) st;
              (clientId, st) = genClientId st;
              st = st\<lparr>clients := (clients st)(clientId \<mapsto> \<lparr>socket = s, crooms = [], name = clientId\<rparr>)\<rparr>;
              st = sendToClient rt clientId
                     (Obj [(''type'', Val (JStr (jsstr ''welcome''))), (''id'', Val clientId),
                           (''message'', Val (JStr (jsstr ''welcome to minimal-ws-relay'')))]) st
          in (st, Some \<lparr>conn_clientId = clientId, conn_socket = s, conn_recvBuffer = []\<rparr>))"

text \<open>A decoded frame takes at least its two header bytes from the buffer, so the decode
  loop ends.\<close>

lemma exp53_div: "2 ^ 53 \<le> n \<Longrightarrow> 2 ^ 52 \<le> n div 2 ^ exp53 n"
proof (induction n rule: exp53.induct)
  case (1 n)
  show ?case
  proof (cases "n div 2 < 2 ^ 53")
    case True
    have "exp53 (n div 2) = 0" using True by (subst exp53.simps) simp
    then have "exp53 n = Suc 0" using 1(2) by (subst exp53.simps) simp
    then show ?thesis using 1(2) by simp
  next
    case False
    have e: "exp53 n = Suc (exp53 (n div 2))" using 1(2) by (subst exp53.simps) simp
    have "2 ^ 52 \<le> n div 2 div 2 ^ exp53 (n div 2)"
      using 1 False by simp
    then show ?thesis unfolding e by (simp add: div_mult2_eq)
  qed
qed

lemma round53_pos: "0 < n \<Longrightarrow> 0 < round53 n"
proof (cases "n < 2 ^ 53")
  case True
  assume "0 < n"
  then show ?thesis using True by (simp add: round53_def)
next
  case False
  then have "2 ^ 52 \<le> n div 2 ^ exp53 n" by (intro exp53_div) simp
  then have "0 < n div 2 ^ exp53 n" by simp
  then show ?thesis using False by (simp add: round53_def Let_def)
qed

lemma parseFrame_frameLen_pos:
  assumes "parseFrame buf = Inr (Some f)"
  shows "0 < frameLen f"
proof -
  have "0 < js_add a b" if "0 < a" for a b
    using that by (simp add: js_add_def round53_pos)
  then show ?thesis
    using assms
    by (auto simp: parseFrame_def Let_def split: if_splits sum.splits prod.splits)
qed

text \<open>
  The loop of the \<^verbatim>\<open>data\<close> handler over the receive buffer, for the connection
  of \<open>clientId\<close> on socket \<open>s\<close>. It returns the buffer that is left and the new state
  of the server; an exception that nothing catches ends the process (\<open>Inl\<close>).
\<close>

function data_loop :: "runtime \<Rightarrow> jsval \<Rightarrow> sock \<Rightarrow> buffer \<Rightarrow> server \<Rightarrow> error + (buffer \<times> server)" where
  "data_loop rt clientId s recvBuffer st =
     (if length recvBuffer > 2 then
        (case parseFrame recvBuffer of
           Inl e \<Rightarrow> Inl e
         | Inr None \<Rightarrow> Inr (recvBuffer, st)
         | Inr (Some fr) \<Rightarrow>
             let rest = drop (frameLen fr) recvBuffer
             in if opcode fr = 0x8 then
                  (case cleanupClient rt clientId st of
                     Inl e \<Rightarrow> Inl e
                   | Inr st' \<Rightarrow> Inr (rest, socket_end s st'))
                else if opcode fr = 0x9 then
                  data_loop rt clientId s rest
                    (socket_write s
                       ([0x8A, of_nat (length (payload fr))] @ Buffer_from (payload fr)) st)
                else if opcode fr = 0xA then data_loop rt clientId s rest st
                else if opcode fr = 0x1 then
                  (case handleJsonMessage rt clientId (payload fr) st of
                     Inl e \<Rightarrow> Inl e
                   | Inr st' \<Rightarrow> data_loop rt clientId s rest st')
                else data_loop rt clientId s rest st)
      else Inr (recvBuffer, st))"
  by pat_completeness auto
termination
  by (relation "measure (\<lambda>(rt, clientId, s, recvBuffer, st). length recvBuffer)")
    (auto dest: parseFrame_frameLen_pos)

declare data_loop.simps [simp del]

definition on_data :: "runtime \<Rightarrow> connection \<Rightarrow> buffer \<Rightarrow> server \<Rightarrow> error + (connection \<times> server)" where
  "on_data rt conn buf st =
     (case data_loop rt (conn_clientId conn) (conn_socket conn) (conn_recvBuffer conn @ buf) st of
        Inl e \<Rightarrow> Inl e
      | Inr (rest, st') \<Rightarrow> Inr (conn\<lparr>conn_recvBuffer := rest\<rparr>, st'))"

definition on_close :: "runtime \<Rightarrow> connection \<Rightarrow> server \<Rightarrow> error + server" where
  "on_close rt conn st = cleanupClient rt (conn_clientId conn) st"

definition on_error :: "runtime \<Rightarrow> connection \<Rightarrow> server \<Rightarrow> error + server" where
  "on_error rt conn st = cleanupClient rt (conn_clientId conn) st"

definition initial :: server where
  "initial = \<lparr>clients = Map.empty, rooms = Map.empty, nextId = 1,
              sockets = (\<lambda>_. \<lparr>destroyed = False, ended = False, written = []\<rparr>)\<rparr>"

subsection \<open>The states of a running server\<close>

text \<open>
  The states that the handlers can lead to from the initial state: a connection is made
  on a socket that no client holds, a message is dispatched (with whatever
  \<^verbatim>\<open>JSON.parse\<close> made of its text), a client is cleaned up, a chunk is written to a
  socket, a socket is ended, a socket is destroyed when its transport fails.
\<close>

inductive reachable :: "runtime \<Rightarrow> server \<Rightarrow> bool" for rt :: runtime where
  start: "reachable rt initial"
| upgrade: "reachable rt st \<Longrightarrow> \<forall>cid c. clients st cid = Some c \<longrightarrow> socket c \<noteq> s \<Longrightarrow>
     reachable rt (fst (on_upgrade rt key s st))"
| message: "reachable rt st \<Longrightarrow> handleParsed rt clientId p st = Inr st' \<Longrightarrow> reachable rt st'"
| cleanup: "reachable rt st \<Longrightarrow> cleanupClient rt clientId st = Inr st' \<Longrightarrow> reachable rt st'"
| wrote: "reachable rt st \<Longrightarrow> reachable rt (socket_write s chunk st)"
| ended: "reachable rt st \<Longrightarrow> reachable rt (socket_end s st)"
| lost: "reachable rt st \<Longrightarrow> reachable rt (socket_destroy s st)"

text \<open>The members of a room; a room that was never joined has none.\<close>

definition members_of :: "server \<Rightarrow> jsval \<Rightarrow> jsval list" where
  "members_of st room = (case rooms st room of None \<Rightarrow> [] | Some s \<Rightarrow> s)"

text \<open>
  The registry is consistent: a client is among the members of a room exactly when the
  room is among the rooms of the client, and every member of a room is a client.
\<close>

definition registry_ok :: "server \<Rightarrow> bool" where
  "registry_ok st =
     ((\<forall>cid c room. clients st cid = Some c \<longrightarrow>
         (room \<in> set (crooms c)) = (cid \<in> set (members_of st room)))
      \<and> (\<forall>room cid. cid \<in> set (members_of st room) \<longrightarrow> clients st cid \<noteq> None))"

text \<open>The sets of the registry have no duplicates.\<close>

definition sets_ok :: "server \<Rightarrow> bool" where
  "sets_ok st =
     ((\<forall>room. distinct (members_of st room))
      \<and> (\<forall>cid c. clients st cid = Some c \<longrightarrow> distinct (crooms c)))"

text \<open>Two clients never hold the same socket.\<close>

definition own_sockets :: "server \<Rightarrow> bool" where
  "own_sockets st =
     (\<forall>a b ca cb. clients st a = Some ca \<longrightarrow> clients st b = Some cb \<longrightarrow>
        socket ca = socket cb \<longrightarrow> a = b)"

text \<open>Every client has an identifier that the counter has already passed.\<close>

definition ids_ok :: "server \<Rightarrow> bool" where
  "ids_ok st = (\<forall>cid c. clients st cid = Some c \<longrightarrow> (\<exists>k. k < nextId st \<and> cid = client_id k))"

definition server_ok :: "server \<Rightarrow> bool" where
  "server_ok st = (registry_ok st \<and> sets_ok st \<and> own_sockets st \<and> ids_ok st)"

text \<open>The name of every client has a text: building a notice with it does not throw.\<close>

definition names_ok :: "runtime \<Rightarrow> server \<Rightarrow> bool" where
  "names_ok rt st = (\<forall>cid c. clients st cid = Some c \<longrightarrow> (\<exists>t. template rt (name c) = Inr t))"

text \<open>
  From the state \<open>st\<close> to the state \<open>st'\<close> nothing but frames of objects of the set
  \<open>X\<close> was written to the sockets.
\<close>

definition sent_only :: "runtime \<Rightarrow> jsobj set \<Rightarrow> server \<Rightarrow> server \<Rightarrow> bool" where
  "sent_only rt X st st' =
     (\<forall>y. \<exists>objs. written (sockets st' y) =
                 written (sockets st y) @ map (\<lambda>obj. buildTextFrame (JSON_stringify rt obj)) objs
               \<and> set objs \<subseteq> X)"

text \<open>A socket that takes writes.\<close>

definition alive :: "server \<Rightarrow> sock \<Rightarrow> bool" where
  "alive st s = (\<not> destroyed (sockets st s) \<and> \<not> ended (sockets st s))"

subsection \<open>A runtime and two clients for the runs\<close>

text \<open>
  A runtime for the runs below. Its \<^verbatim>\<open>JSON.parse\<close> reads the text
  \<^verbatim>\<open>null\<close> and rejects every other text, as the language's does on the other texts
  of the runs. The object 0 is \<^verbatim>\<open>{"toString": null}\<close>, whose string conversion
  throws; every other object is a plain one. The other built-ins return the empty string.
\<close>

definition rt0 :: runtime where
  "rt0 = \<lparr>JSON_parse = (\<lambda>s. if s = jsstr ''null'' then Some ParsedNull else None),
          JSON_stringify = (\<lambda>_. []),
          Number_toString = (\<lambda>_. []),
          Object_toString = (\<lambda>r. if r = 0 then None else Some (jsstr ''[object Object]'')),
          sha1_base64 = (\<lambda>_. [])\<rparr>"

definition c1 :: jsval where
  "c1 = JStr (jsstr ''c1'')"

definition c2 :: jsval where
  "c2 = JStr (jsstr ''c2'')"

definition r1 :: jsval where
  "r1 = JStr (jsstr ''r1'')"

definition join_r1 :: message where
  "join_r1 = \<lparr>p_type = JStr (jsstr ''join''), p_room = r1, p_name = JUndefined,
              p_to = JUndefined, p_text = JUndefined\<rparr>"

text \<open>Two clients connect, on the sockets 1 and 2; then both join the room \<^verbatim>\<open>r1\<close>.\<close>

definition two_clients :: server where
  "two_clients =
     fst (on_upgrade rt0 (Some (jsstr ''key'')) 2
       (fst (on_upgrade rt0 (Some (jsstr ''key'')) 1 initial)))"

definition two_in_r1 :: server where
  "two_in_r1 =
     (case handleParsed rt0 c1 (Parsed join_r1) two_clients of
        Inl _ \<Rightarrow> two_clients
      | Inr st \<Rightarrow>
          (case handleParsed rt0 c2 (Parsed join_r1) st of Inl _ \<Rightarrow> st | Inr st' \<Rightarrow> st'))"

text \<open>The messages of the runs.\<close>

definition to_nobody :: message where
  "to_nobody = \<lparr>p_type = JStr (jsstr ''msg''), p_room = JUndefined, p_name = JUndefined,
                p_to = JStr (jsstr ''c9''), p_text = JStr (jsstr ''secret'')\<rparr>"

definition to_peer :: message where
  "to_peer = \<lparr>p_type = JStr (jsstr ''msg''), p_room = JUndefined, p_name = JUndefined,
              p_to = c2, p_text = JStr (jsstr ''secret'')\<rparr>"



definition list_plain :: message where
  "list_plain = \<lparr>p_type = JStr (jsstr ''list''), p_room = JUndefined, p_name = JUndefined,
                 p_to = JUndefined, p_text = JUndefined\<rparr>"

definition message_r1 :: message where
  "message_r1 = \<lparr>p_type = JStr (jsstr ''message''), p_room = r1, p_name = JUndefined,
                 p_to = JUndefined, p_text = JStr (jsstr ''hi'')\<rparr>"

definition msg_r1 :: message where
  "msg_r1 = \<lparr>p_type = JStr (jsstr ''msg''), p_room = r1, p_name = JUndefined,
             p_to = JUndefined, p_text = JStr (jsstr ''hi'')\<rparr>"


section \<open>Properties of the frame codec\<close>

subsection \<open>UTF-8: decoding what was encoded\<close>

lemma div4096: "(cp::nat) div 4096 = cp div 64 div 64"
  by (simp add: div_mult2_eq)

lemma div262144: "(cp::nat) div 262144 = cp div 64 div 64 div 64"
  by (simp add: div_mult2_eq)

lemma recompose2: "(q::nat) div 64 * 64 + q mod 64 = q"
  by simp

lemma e3: "((cp div 4096) * 64 + cp div 64 mod 64) * 64 + cp mod 64 = (cp::nat)"
  by (simp add: div4096)

lemma e4: "(((cp div 262144) * 64 + cp div 4096 mod 64) * 64 + cp div 64 mod 64) * 64 + cp mod 64 = (cp::nat)"
  by (simp add: div4096 div262144)

lemma r3: assumes "0x800 \<le> (cp::nat)" "cp < 0x10000" "cp < 0xD800 \<or> 0xDFFF < cp"
  shows "(if cp div 4096 = 0 then 0x20 else 0) \<le> cp div 64 mod 64" "cp div 64 mod 64 \<le> (if cp div 4096 = 13 then 0x1F else 0x3F)"
proof -
  define q where "q = cp div 64"
  define t where "t = q div 64"
  have q: "32 \<le> q" "q < 1024" "q < 864 \<or> 895 < q" using assms unfolding q_def by arith+
  have m: "q mod 64 = q - t * 64" unfolding t_def by (simp add: minus_div_mult_eq_mod)
  have t: "t * 64 \<le> q" "q < t * 64 + 64" unfolding t_def by arith+
  show "(if cp div 4096 = 0 then 0x20 else 0) \<le> cp div 64 mod 64"
    using q t unfolding div4096 q_def[symmetric] t_def[symmetric] m by auto
  show "cp div 64 mod 64 \<le> (if cp div 4096 = 13 then 0x1F else 0x3F)"
    using q t unfolding div4096 q_def[symmetric] t_def[symmetric] m by auto
qed


lemma r4: assumes "0x10000 \<le> (cp::nat)" "cp < 0x110000"
  shows "(if cp div 262144 = 0 then 0x10 else 0) \<le> cp div 4096 mod 64" "cp div 4096 mod 64 \<le> (if cp div 262144 = 4 then 0x0F else 0x3F)"
proof -
  define q where "q = cp div 4096"
  define t where "t = q div 64"
  have q: "16 \<le> q" "q < 272" using assms unfolding q_def by arith+
  have m: "q mod 64 = q - t * 64" unfolding t_def by (simp add: minus_div_mult_eq_mod)
  have t: "t * 64 \<le> q" "q < t * 64 + 64" unfolding t_def by arith+
  have d: "cp div 262144 = t" unfolding t_def q_def by (simp add: div_mult2_eq)
  show "(if cp div 262144 = 0 then 0x10 else 0) \<le> cp div 4096 mod 64"
    using q t unfolding d q_def[symmetric] m by auto
  show "cp div 4096 mod 64 \<le> (if cp div 262144 = 4 then 0x0F else 0x3F)"
    using q t unfolding d q_def[symmetric] m by auto
qed

lemma unat_byte: "n < 256 \<Longrightarrow> unat (of_nat n :: byte) = n"
  by (simp add: unat_of_nat)

lemma dec_cp1: "cp < 0x80 \<Longrightarrow> utf8_dec 0 0 0x80 0xBF (utf8_cp cp @ rest) = utf16_cp cp @ utf8_dec 0 0 0x80 0xBF rest"
  by (simp add: utf8_cp_def utf16_cp_def Let_def unat_byte)

lemma dec_cont:
  assumes "0x80 \<le> x" "x \<le> 0xBF" "1 < n"
  shows "utf8_dec c n 0x80 0xBF (of_nat x # rest) = utf8_dec (c * 64 + (x - 0x80)) (n - 1) 0x80 0xBF rest"
  using assms by (simp add: Let_def unat_byte)

lemma dec_last:
  assumes "0x80 \<le> x" "x \<le> 0xBF"
  shows "utf8_dec c 1 0x80 0xBF (of_nat x # rest) = utf16_cp (c * 64 + (x - 0x80)) @ utf8_dec 0 0 0x80 0xBF rest"
  using assms by (simp add: Let_def unat_byte)


lemma dec_lead2:
  assumes "unat b = 0xC0 + d" "2 \<le> d" "d < 32"
  shows "utf8_dec 0 0 0x80 0xBF (b # bs) = utf8_dec d 1 0x80 0xBF bs"
  using assms by (simp add: Let_def)

lemma dec_lead3:
  assumes "unat b = 0xE0 + d" "d < 16"
  shows "utf8_dec 0 0 0x80 0xBF (b # bs) =
    utf8_dec d 2 (if d = 0 then 0xA0 else 0x80) (if d = 13 then 0x9F else 0xBF) bs"
  using assms by (simp add: Let_def)

lemma dec_lead4:
  assumes "unat b = 0xF0 + d" "d < 5"
  shows "utf8_dec 0 0 0x80 0xBF (b # bs) =
    utf8_dec d 3 (if d = 0 then 0x90 else 0x80) (if d = 4 then 0x8F else 0xBF) bs"
  using assms by (simp add: Let_def)

lemma dec_step:
  assumes "unat b = 0x80 + d" "lo \<le> 0x80 + d" "0x80 + d \<le> hi" "1 < n"
  shows "utf8_dec c n lo hi (b # bs) = utf8_dec (c * 64 + d) (n - 1) 0x80 0xBF bs"
  using assms by (simp add: Let_def)

lemma dec_final:
  assumes "unat b = 0x80 + d" "lo \<le> 0x80 + d" "0x80 + d \<le> hi"
  shows "utf8_dec c 1 lo hi (b # bs) = utf16_cp (c * 64 + d) @ utf8_dec 0 0 0x80 0xBF bs"
  using assms by (simp add: Let_def)

lemma dec_cp2: 
  assumes a: "0x80 \<le> cp" "cp < 0x800"
  shows "utf8_dec 0 0 0x80 0xBF (utf8_cp cp @ rest) = utf16_cp cp @ utf8_dec 0 0 0x80 0xBF rest"
proof -
  define d0 where "d0 = cp div 64"
  define d1 where "d1 = cp mod 64"
  have b0: "2 \<le> d0" "d0 < 32" using a unfolding d0_def by arith+
  have b1: "d1 < 64" unfolding d1_def by simp
  have e: "d0 * 64 + d1 = cp" unfolding d0_def d1_def by simp
  have u0: "unat (of_nat (0xC0 + d0) :: byte) = 0xC0 + d0" using b0 by (intro unat_byte) simp
  have u1: "unat (of_nat (0x80 + d1) :: byte) = 0x80 + d1" using b1 by (intro unat_byte) simp
  have n: "\<not> cp < 0x80" using a by simp
  have u: "utf8_cp cp = [of_nat (0xC0 + d0), of_nat (0x80 + d1)]"
    unfolding utf8_cp_def d0_def d1_def using n a(2) by (simp only: if_False if_True)
  have "utf8_dec 0 0 0x80 0xBF (utf8_cp cp @ rest) = utf8_dec d0 1 0x80 0xBF (of_nat (0x80 + d1) # rest)"
    unfolding u using dec_lead2[OF u0 b0] by simp
  also have "\<dots> = utf16_cp (d0 * 64 + d1) @ utf8_dec 0 0 0x80 0xBF rest"
    using b1 by (intro dec_final[OF u1]) simp_all
  finally show ?thesis unfolding e .
qed

lemma dec_cp3: 
  assumes a: "0x800 \<le> cp" "cp < 0x10000" "cp < 0xD800 \<or> 0xDFFF < cp"
  shows "utf8_dec 0 0 0x80 0xBF (utf8_cp cp @ rest) = utf16_cp cp @ utf8_dec 0 0 0x80 0xBF rest"
proof -
  define d0 where "d0 = cp div 4096"
  define d1 where "d1 = cp div 64 mod 64"
  define d2 where "d2 = cp mod 64"
  define lo where "lo = (if d0 = 0 then 0xA0 else (0x80::nat))"
  define hi where "hi = (if d0 = 13 then 0x9F else (0xBF::nat))"
  have b0: "d0 < 16" using a unfolding d0_def by arith
  have b1: "d1 < 64" "lo \<le> 0x80 + d1" "0x80 + d1 \<le> hi"
    using r3[OF a] unfolding d1_def d0_def lo_def hi_def by (simp_all split: if_splits)
  have b2: "d2 < 64" unfolding d2_def by simp
  have e: "(d0 * 64 + d1) * 64 + d2 = cp" unfolding d0_def d1_def d2_def by (rule e3)
  have u0: "unat (of_nat (0xE0 + d0) :: byte) = 0xE0 + d0" using b0 by (intro unat_byte) simp
  have u1: "unat (of_nat (0x80 + d1) :: byte) = 0x80 + d1" using b1 by (intro unat_byte) simp
  have u2: "unat (of_nat (0x80 + d2) :: byte) = 0x80 + d2" using b2 by (intro unat_byte) simp
  have n: "\<not> cp < 0x80" "\<not> cp < 0x800" using a by simp_all
  have u: "utf8_cp cp = [of_nat (0xE0 + d0), of_nat (0x80 + d1), of_nat (0x80 + d2)]"
    unfolding utf8_cp_def d0_def d1_def d2_def using n a(2) by (simp only: if_False if_True)
  have "utf8_dec 0 0 0x80 0xBF (utf8_cp cp @ rest) =
      utf8_dec d0 2 lo hi (of_nat (0x80 + d1) # of_nat (0x80 + d2) # rest)"
    unfolding u lo_def hi_def using dec_lead3[OF u0 b0] by simp
  also have "\<dots> = utf8_dec (d0 * 64 + d1) 1 0x80 0xBF (of_nat (0x80 + d2) # rest)"
    using dec_step[OF u1 b1(2,3), of 2] by simp
  also have "\<dots> = utf16_cp ((d0 * 64 + d1) * 64 + d2) @ utf8_dec 0 0 0x80 0xBF rest"
    using b2 by (intro dec_final[OF u2]) simp_all
  finally show ?thesis unfolding e .
qed

lemma dec_cp4: 
  assumes a: "0x10000 \<le> cp" "cp < 0x110000"
  shows "utf8_dec 0 0 0x80 0xBF (utf8_cp cp @ rest) = utf16_cp cp @ utf8_dec 0 0 0x80 0xBF rest"
proof -
  define d0 where "d0 = cp div 262144"
  define d1 where "d1 = cp div 4096 mod 64"
  define d2 where "d2 = cp div 64 mod 64"
  define d3 where "d3 = cp mod 64"
  define lo where "lo = (if d0 = 0 then 0x90 else (0x80::nat))"
  define hi where "hi = (if d0 = 4 then 0x8F else (0xBF::nat))"
  have b0: "d0 < 5" using a unfolding d0_def by arith
  have b1: "d1 < 64" "lo \<le> 0x80 + d1" "0x80 + d1 \<le> hi"
    using r4[OF a] unfolding d1_def d0_def lo_def hi_def by (simp_all split: if_splits)
  have b2: "d2 < 64" unfolding d2_def by simp
  have b3: "d3 < 64" unfolding d3_def by simp
  have e: "((d0 * 64 + d1) * 64 + d2) * 64 + d3 = cp" unfolding d0_def d1_def d2_def d3_def by (rule e4)
  have u0: "unat (of_nat (0xF0 + d0) :: byte) = 0xF0 + d0" using b0 by (intro unat_byte) simp
  have u1: "unat (of_nat (0x80 + d1) :: byte) = 0x80 + d1" using b1 by (intro unat_byte) simp
  have u2: "unat (of_nat (0x80 + d2) :: byte) = 0x80 + d2" using b2 by (intro unat_byte) simp
  have u3: "unat (of_nat (0x80 + d3) :: byte) = 0x80 + d3" using b3 by (intro unat_byte) simp
  have n: "\<not> cp < 0x80" "\<not> cp < 0x800" "\<not> cp < 0x10000" using a by simp_all
  have u: "utf8_cp cp = [of_nat (0xF0 + d0), of_nat (0x80 + d1), of_nat (0x80 + d2), of_nat (0x80 + d3)]"
    unfolding utf8_cp_def d0_def d1_def d2_def d3_def using n by (simp only: if_False)
  have "utf8_dec 0 0 0x80 0xBF (utf8_cp cp @ rest) =
      utf8_dec d0 3 lo hi (of_nat (0x80 + d1) # of_nat (0x80 + d2) # of_nat (0x80 + d3) # rest)"
    unfolding u lo_def hi_def using dec_lead4[OF u0 b0] by simp
  also have "\<dots> = utf8_dec (d0 * 64 + d1) 2 0x80 0xBF (of_nat (0x80 + d2) # of_nat (0x80 + d3) # rest)"
    using dec_step[OF u1 b1(2,3), of 3] by simp
  also have "\<dots> = utf8_dec ((d0 * 64 + d1) * 64 + d2) 1 0x80 0xBF (of_nat (0x80 + d3) # rest)"
    using b2 dec_step[OF u2, of "0x80" "0xBF" 2] by simp
  also have "\<dots> = utf16_cp (((d0 * 64 + d1) * 64 + d2) * 64 + d3) @ utf8_dec 0 0 0x80 0xBF rest"
    using b3 by (intro dec_final[OF u3]) simp_all
  finally show ?thesis unfolding e .
qed

lemma dec_scalar:
  assumes "cp < 0x110000" "cp < 0xD800 \<or> 0xDFFF < cp"
  shows "utf8_dec 0 0 0x80 0xBF (utf8_cp cp @ rest) = utf16_cp cp @ utf8_dec 0 0 0x80 0xBF rest"
proof -
  consider "cp < 0x80" | "0x80 \<le> cp \<and> cp < 0x800" | "0x800 \<le> cp \<and> cp < 0x10000" | "0x10000 \<le> cp"
    by linarith
  then show ?thesis using assms
    by cases (simp_all add: dec_cp1 dec_cp2 dec_cp3 dec_cp4)
qed


lemma unat_unit_less: "unat (u :: 16 word) < 0x10000"
  using unsigned_less[of u, where 'a=nat] by simp

lemma utf16_unit: "utf16_cp (unat (u :: 16 word)) = [u]"
  using unat_unit_less[of u] by (simp add: utf16_cp_def)

lemma utf16_replacement: "utf16_cp 0xFFFD = [0xFFFD]"
  by (simp add: utf16_cp_def)

lemma pair_cp_range:
  assumes "is_high_surrogate u" "is_low_surrogate v"
  shows "0x10000 \<le> pair_cp u v" "pair_cp u v < 0x110000"
  using assms unfolding is_high_surrogate_def is_low_surrogate_def pair_cp_def by arith+

lemma utf16_pair:
  assumes "is_high_surrogate u" "is_low_surrogate v"
  shows "utf16_cp (pair_cp u v) = [u, v]"
proof -
  define a where "a = unat u - 0xD800"
  define b where "b = unat v - 0xDC00"
  have ab: "a < 1024" "b < 1024" "unat u = 0xD800 + a" "unat v = 0xDC00 + b"
    using assms unfolding is_high_surrogate_def is_low_surrogate_def a_def b_def by arith+
  have p: "pair_cp u v - 0x10000 = a * 1024 + b"
    unfolding pair_cp_def a_def b_def by simp
  have d: "(a * 1024 + b) div 1024 = a" "(a * 1024 + b) mod 1024 = b"
    using ab by simp_all
  have "utf16_cp (pair_cp u v) = [of_nat (0xD800 + a), of_nat (0xDC00 + b)]"
    using pair_cp_range[OF assms] unfolding utf16_cp_def p d by simp
  also have "\<dots> = [u, v]"
    unfolding ab(3,4)[symmetric] by simp
  finally show ?thesis .
qed

lemma toString_Buffer_from: "toString_utf8 (Buffer_from s) = toWellFormed s"
  unfolding toString_utf8_def
proof (induction s rule: Buffer_from.induct)
  case 1
  show ?case by simp
next
  case (2 u)
  have "utf8_dec 0 0 0x80 0xBF (utf8_cp (unat u) @ []) = utf16_cp (unat u) @ utf8_dec 0 0 0x80 0xBF []"
    if "\<not> is_high_surrogate u" "\<not> is_low_surrogate u"
    using that unat_unit_less[of u]
    by (intro dec_scalar) (auto simp: is_high_surrogate_def is_low_surrogate_def)
  moreover have "utf8_dec 0 0 0x80 0xBF (utf8_cp 0xFFFD @ []) = utf16_cp 0xFFFD @ utf8_dec 0 0 0x80 0xBF []"
    by (intro dec_scalar) simp_all
  ultimately show ?case
    by (auto simp: utf16_unit utf16_replacement)
next
  case (3 u v rest)
  have rep: "utf8_dec 0 0 0x80 0xBF (utf8_cp 0xFFFD @ bs) = 0xFFFD # utf8_dec 0 0 0x80 0xBF bs" for bs
    using dec_scalar[of "0xFFFD" bs] by (simp add: utf16_replacement)
  have unit: "utf8_dec 0 0 0x80 0xBF (utf8_cp (unat u) @ bs) = u # utf8_dec 0 0 0x80 0xBF bs"
    if "\<not> is_high_surrogate u" "\<not> is_low_surrogate u" for bs
    using that unat_unit_less[of u] dec_scalar[of "unat u" bs]
    by (auto simp: is_high_surrogate_def is_low_surrogate_def utf16_unit)
  have pair: "utf8_dec 0 0 0x80 0xBF (utf8_cp (pair_cp u v) @ bs) = u # v # utf8_dec 0 0 0x80 0xBF bs"
    if "is_high_surrogate u" "is_low_surrogate v" for bs
    using pair_cp_range[OF that] dec_scalar[of "pair_cp u v" bs] by (simp add: utf16_pair[OF that])
  show ?case
    using 3 by (simp add: rep unit pair)
qed

subsection \<open>Headers\<close>


lemma and7f: "unat ((b::byte) AND 0x7f) = unat b mod 128"
proof -
  have m: "(0x7f :: byte) = mask 7" by (simp add: mask_eq_exp_minus_1)
  show ?thesis unfolding m by (simp add: take_bit_eq_mask[symmetric] unsigned_take_bit_eq take_bit_eq_mod unat_mod)
qed

lemma and80: "((b::byte) AND 0x80 \<noteq> 0) = (128 \<le> unat b)"
proof -
  have "(b AND 0x80 = 0) = (\<not> bit b 7)"
    using and_exp_eq_0_iff_not_bit[of b 7] by simp
  also have "bit b 7 = odd (unat b div 128)"
  proof -
    have "bit b 7 = bit (unat b) 7" by (simp add: bit_unsigned_iff)
    then show ?thesis by (simp add: bit_iff_odd_drop_bit drop_bit_eq_div)
  qed
  also have "\<dots> = (128 \<le> unat b)"
  proof -
    have "unat b < 256" using unsigned_less[of b, where 'a=nat] by simp
    then have "unat b div 128 = (if 128 \<le> unat b then 1 else 0)" by auto
    then show ?thesis by simp
  qed
  finally show ?thesis by simp
qed

lemma foldl_be_bytes:
  "foldl (\<lambda>acc b. acc * 256 + unat (b::byte)) acc (be_bytes k n) = acc * 256 ^ k + n mod 256 ^ k"
proof (induction k arbitrary: acc)
  case 0
  show ?case by simp
next
  case (Suc k)
  have "foldl (\<lambda>acc b. acc * 256 + unat (b::byte)) acc (be_bytes (Suc k) n) =
      foldl (\<lambda>acc b. acc * 256 + unat (b::byte)) (acc * 256 + n div 256 ^ k mod 256) (be_bytes k n)"
    by (simp add: unat_of_nat)
  also have "\<dots> = (acc * 256 + n div 256 ^ k mod 256) * 256 ^ k + n mod 256 ^ k"
    by (rule Suc.IH)
  also have "\<dots> = acc * 256 ^ Suc k + (256 ^ k * (n div 256 ^ k mod 256) + n mod 256 ^ k)"
    by (simp add: algebra_simps)
  also have "256 ^ k * (n div 256 ^ k mod 256) + n mod 256 ^ k = n mod 256 ^ Suc k"
    using mod_mult2_eq[of n "256 ^ k" 256] by (simp add: mult.commute)
  finally show ?case .
qed

lemma be_nat_be_bytes: "n < 256 ^ k \<Longrightarrow> be_nat (be_bytes k n) = n"
  by (simp add: be_nat_def foldl_be_bytes)

lemma length_be_bytes: "length (be_bytes k n) = k"
  by (induction k) simp_all

lemma round53_small: "n < 2 ^ 53 \<Longrightarrow> round53 n = n"
  by (simp add: round53_def)

lemma js_add_small: "a + b < 2 ^ 53 \<Longrightarrow> js_add a b = a + b"
  by (simp add: js_add_def round53_small)

lemma parse_short:
  assumes "length pl < 126"
  shows "parseFrame (b0 # of_nat (length pl) # pl @ rest) =
    Inr (Some \<lparr>fin = (b0 AND 0x80 \<noteq> 0), opcode = b0 AND 0x0f,
               payload = toString_utf8 pl, frameLen = 2 + length pl\<rparr>)"
proof -
  define n where "n = length pl"
  have u: "unat (of_nat n :: byte) = n" using assms unfolding n_def by (intro unat_byte) simp
  have m: "\<not> ((of_nat n :: byte) AND 0x80 \<noteq> 0)" "unat ((of_nat n :: byte) AND 0x7f) = n"
    using assms unfolding and80 and7f u by (simp_all add: n_def)
  have j: "js_add 2 n = 2 + n" using assms unfolding n_def by (intro js_add_small) simp
  show ?thesis
    using assms m j unfolding n_def[symmetric] 
    by (simp add: parseFrame_def Let_def slice_def n_def)
qed


lemma parse_medium:
  assumes "126 \<le> length pl" "length pl < 65536"
  shows "parseFrame (b0 # 126 # be_bytes 2 (length pl) @ pl @ rest) =
    Inr (Some \<lparr>fin = (b0 AND 0x80 \<noteq> 0), opcode = b0 AND 0x0f,
               payload = toString_utf8 pl, frameLen = 4 + length pl\<rparr>)"
proof -
  define n where "n = length pl"
  define hd2 where "hd2 = be_bytes 2 n"
  have l: "length hd2 = 2" unfolding hd2_def by (rule length_be_bytes)
  have v: "be_nat hd2 = n" unfolding hd2_def using assms by (intro be_nat_be_bytes) (simp add: n_def)
  have m: "\<not> ((126 :: byte) AND 0x80 \<noteq> 0)" "unat ((126 :: byte) AND 0x7f) = 126"
    by simp_all
  have j: "js_add 4 n = 4 + n" using assms unfolding n_def by (intro js_add_small) simp
  have r: "readUInt16BE (b0 # 126 # hd2 @ pl @ rest) 2 = Inr n"
    using l v by (simp add: readUInt16BE_def slice_def)
  have d: "drop 4 (b0 # 126 # hd2 @ pl @ rest) = pl @ rest"
    using l by (simp add: numeral_eq_Suc)
  show ?thesis
    unfolding n_def[symmetric] hd2_def[symmetric]
    using m j r d by (simp add: parseFrame_def Let_def slice_def n_def)
qed

lemma parse_long:
  assumes "65536 \<le> length pl" "10 + length pl < 2 ^ 53"
  shows "parseFrame (b0 # 127 # be_bytes 8 (length pl) @ pl @ rest) =
    Inr (Some \<lparr>fin = (b0 AND 0x80 \<noteq> 0), opcode = b0 AND 0x0f,
               payload = toString_utf8 pl, frameLen = 10 + length pl\<rparr>)"
proof -
  define n where "n = length pl"
  define hd8 where "hd8 = be_bytes 8 n"
  have l: "length hd8 = 8" unfolding hd8_def by (rule length_be_bytes)
  have "n < 256 ^ 8" using assms unfolding n_def by simp
  then have v: "be_nat hd8 = n" unfolding hd8_def by (rule be_nat_be_bytes)
  have m: "\<not> ((127 :: byte) AND 0x80 \<noteq> 0)" "unat ((127 :: byte) AND 0x7f) = 127"
    by simp_all
  have j: "js_add 10 n = 10 + n" using assms unfolding n_def by (intro js_add_small) simp
  have nn: "Number n = n" using assms unfolding Number_def n_def by (intro round53_small) simp
  have r: "readBigUInt64BE (b0 # 127 # hd8 @ pl @ rest) 2 = Inr n"
    using l v by (simp add: readBigUInt64BE_def slice_def)
  have d: "drop 10 (b0 # 127 # hd8 @ pl @ rest) = pl @ rest"
    using l by (simp add: numeral_eq_Suc)
  show ?thesis
    unfolding n_def[symmetric] hd8_def[symmetric]
    using m j r d nn by (simp add: parseFrame_def Let_def slice_def n_def)
qed

lemma Buffer_from_unit:
  "\<not> is_high_surrogate u \<Longrightarrow> \<not> is_low_surrogate u \<Longrightarrow>
   Buffer_from (u # s) = utf8_cp (unat u) @ Buffer_from s"
  by (cases s) simp_all

lemma replacement_not_surrogate:
  "\<not> is_high_surrogate 0xFFFD" "\<not> is_low_surrogate 0xFFFD" "unat (0xFFFD :: 16 word) = 0xFFFD"
  by (simp_all add: is_high_surrogate_def is_low_surrogate_def)

lemma Buffer_from_toWellFormed: "Buffer_from (toWellFormed s) = Buffer_from s"
proof (induction s rule: toWellFormed.induct)
  case 1
  show ?case by simp
next
  case (2 u)
  show ?case by (simp add: replacement_not_surrogate)
next
  case (3 u v rest)
  show ?case
    using 3 by (simp add: Buffer_from_unit replacement_not_surrogate)
qed


lemma toWellFormed_id: "isWellFormed s \<Longrightarrow> toWellFormed s = s"
  by (induction s rule: toWellFormed.induct) (auto split: if_splits)

lemma wellFormed_replicate_a: "isWellFormed (replicate n (0x61 :: 16 word))"
proof (induction n rule: less_induct)
  case (less n)
  show ?case
  proof (cases n)
    case 0
    then show ?thesis by simp
  next
    case (Suc k)
    show ?thesis
    proof (cases k)
      case 0
      then show ?thesis using Suc by (simp add: is_high_surrogate_def is_low_surrogate_def)
    next
      case (Suc j)
      have "isWellFormed (replicate k (0x61 :: 16 word))"
        using less \<open>n = Suc k\<close> by simp
      then show ?thesis
        using Suc \<open>n = Suc k\<close> by (simp add: is_high_surrogate_def is_low_surrogate_def)
    qed
  qed
qed

lemma length_buildTextFrame:
  "length (buildTextFrame P) =
     length (Buffer_from P) +
       (if length (Buffer_from P) < 126 then 2 else if length (Buffer_from P) < 65536 then 4 else 10)"
  by (simp add: buildTextFrame_def Let_def length_be_bytes)


section \<open>Properties of the registry and the dispatcher\<close>

subsection \<open>What the sending functions leave alone\<close>

lemma socket_write_fields [simp]:
  "clients (socket_write s chunk st) = clients st"
  "rooms (socket_write s chunk st) = rooms st"
  "nextId (socket_write s chunk st) = nextId st"
  "destroyed (sockets (socket_write s chunk st) y) = destroyed (sockets st y)"
  "ended (sockets (socket_write s chunk st) y) = ended (sockets st y)"
  by (simp_all add: socket_write_def)

lemma socket_write_written:
  "written (sockets (socket_write s chunk st) y) =
     (if y = s \<and> alive st s then written (sockets st y) @ [chunk] else written (sockets st y))"
  by (simp add: socket_write_def alive_def)

lemma socket_destroy_fields [simp]:
  "clients (socket_destroy s st) = clients st"
  "rooms (socket_destroy s st) = rooms st"
  "nextId (socket_destroy s st) = nextId st"
  "written (sockets (socket_destroy s st) y) = written (sockets st y)"
  by (simp_all add: socket_destroy_def)

lemma socket_end_fields [simp]:
  "clients (socket_end s st) = clients st"
  "rooms (socket_end s st) = rooms st"
  "nextId (socket_end s st) = nextId st"
  "written (sockets (socket_end s st) y) = written (sockets st y)"
  by (simp_all add: socket_end_def)

lemma sendToClient_fields [simp]:
  "clients (sendToClient rt cid obj st) = clients st"
  "rooms (sendToClient rt cid obj st) = rooms st"
  "nextId (sendToClient rt cid obj st) = nextId st"
  "destroyed (sockets (sendToClient rt cid obj st) y) = destroyed (sockets st y)"
  "ended (sockets (sendToClient rt cid obj st) y) = ended (sockets st y)"
  by (simp_all add: sendToClient_def split: option.splits)

lemma broadcast_step_fields [simp]:
  "clients (broadcast_step ex fr st cid) = clients st"
  "rooms (broadcast_step ex fr st cid) = rooms st"
  "nextId (broadcast_step ex fr st cid) = nextId st"
  "destroyed (sockets (broadcast_step ex fr st cid) y) = destroyed (sockets st y)"
  "ended (sockets (broadcast_step ex fr st cid) y) = ended (sockets st y)"
  by (simp_all add: broadcast_step_def split: option.splits)

lemma broadcast_fold_fields [simp]:
  "clients (foldl (broadcast_step ex fr) st ms) = clients st"
  "rooms (foldl (broadcast_step ex fr) st ms) = rooms st"
  "nextId (foldl (broadcast_step ex fr) st ms) = nextId st"
  "destroyed (sockets (foldl (broadcast_step ex fr) st ms) y) = destroyed (sockets st y)"
  "ended (sockets (foldl (broadcast_step ex fr) st ms) y) = ended (sockets st y)"
  by (induction ms arbitrary: st) simp_all

lemma broadcastRoom_members:
  "broadcastRoom rt room obj ex st =
     foldl (broadcast_step ex (buildTextFrame (JSON_stringify rt obj))) st (members_of st room)"
  by (simp add: broadcastRoom_def Let_def members_of_def split: option.splits)

lemma broadcastRoom_fields [simp]:
  "clients (broadcastRoom rt room obj ex st) = clients st"
  "rooms (broadcastRoom rt room obj ex st) = rooms st"
  "nextId (broadcastRoom rt room obj ex st) = nextId st"
  "destroyed (sockets (broadcastRoom rt room obj ex st) y) = destroyed (sockets st y)"
  "ended (sockets (broadcastRoom rt room obj ex st) y) = ended (sockets st y)"
  by (simp_all add: broadcastRoom_members)

subsection \<open>Delivery\<close>

lemma sendToClient_written:
  assumes "own_sockets st" "clients st d = Some dc"
  shows "written (sockets (sendToClient rt cid obj st) (socket dc)) =
           written (sockets st (socket dc)) @
             (if cid = d \<and> alive st (socket dc) then [buildTextFrame (JSON_stringify rt obj)] else [])"
proof (cases "clients st cid")
  case None
  then show ?thesis using assms by (auto simp: sendToClient_def)
next
  case (Some c)
  show ?thesis
  proof (cases "cid = d")
    case True
    then show ?thesis using assms Some
      by (auto simp: sendToClient_def socket_write_written alive_def)
  next
    case False
    then have "socket c \<noteq> socket dc"
      using assms Some unfolding own_sockets_def by blast
    then show ?thesis using False Some
      by (simp add: sendToClient_def socket_write_written)
  qed
qed

lemma broadcast_step_written:
  assumes "own_sockets st" "clients st d = Some dc" "alive st (socket dc)"
  shows "written (sockets (broadcast_step ex fr st cid) (socket dc)) =
           written (sockets st (socket dc)) @ (if cid = d \<and> d \<noteq> ex then [fr] else [])"
proof (cases "cid = ex \<or> clients st cid = None")
  case True
  then show ?thesis using assms by (auto simp: broadcast_step_def)
next
  case False
  then obtain c where c: "clients st cid = Some c" "cid \<noteq> ex" by auto
  show ?thesis
  proof (cases "cid = d")
    case True
    then show ?thesis using assms c by (simp add: broadcast_step_def socket_write_written alive_def)
  next
    case False
    then have "socket c \<noteq> socket dc"
      using assms(1,2) c(1) unfolding own_sockets_def by blast
    then show ?thesis using False c by (simp add: broadcast_step_def socket_write_written)
  qed
qed

lemma broadcast_fold_written:
  assumes "own_sockets st" "clients st d = Some dc" "alive st (socket dc)" "distinct ms"
  shows "written (sockets (foldl (broadcast_step ex fr) st ms) (socket dc)) =
           written (sockets st (socket dc)) @ (if d \<in> set ms \<and> d \<noteq> ex then [fr] else [])"
  using assms
proof (induction ms arbitrary: st)
  case Nil
  show ?case by simp
next
  case (Cons m ms)
  have 1: "own_sockets (broadcast_step ex fr st m)"
    using Cons.prems(1) by (simp add: own_sockets_def)
  have 2: "clients (broadcast_step ex fr st m) d = Some dc"
    using Cons.prems(2) by simp
  have 3: "alive (broadcast_step ex fr st m) (socket dc)"
    using Cons.prems(3) by (simp add: alive_def)
  have 4: "distinct ms" "m \<notin> set ms"
    using Cons.prems(4) by simp_all
  show ?case
    using Cons.IH[OF 1 2 3 4(1)] broadcast_step_written[OF Cons.prems(1,2,3), of ex fr m] 4(2)
    by auto
qed

lemma broadcastRoom_written:
  assumes "own_sockets st" "clients st d = Some dc" "alive st (socket dc)"
    "distinct (members_of st room)"
  shows "written (sockets (broadcastRoom rt room obj ex st) (socket dc)) =
           written (sockets st (socket dc)) @
             (if d \<in> set (members_of st room) \<and> d \<noteq> ex
              then [buildTextFrame (JSON_stringify rt obj)] else [])"
  unfolding broadcastRoom_members by (rule broadcast_fold_written[OF assms])

text \<open>A socket that no client holds gets nothing from a broadcast.\<close>

lemma broadcast_fold_written_other:
  assumes "\<forall>cid c. clients st cid = Some c \<longrightarrow> socket c \<noteq> y"
  shows "written (sockets (foldl (broadcast_step ex fr) st ms) y) = written (sockets st y)"
  using assms
proof (induction ms arbitrary: st)
  case Nil
  show ?case by simp
next
  case (Cons m ms)
  have "written (sockets (broadcast_step ex fr st m) y) = written (sockets st y)"
    using Cons.prems by (auto simp: broadcast_step_def socket_write_written split: option.splits)
  moreover have "\<forall>cid c. clients (broadcast_step ex fr st m) cid = Some c \<longrightarrow> socket c \<noteq> y"
    using Cons.prems by simp
  ultimately show ?case using Cons.IH by simp
qed


subsection \<open>Invariants\<close>


lemma members_of_cong: "rooms st' = rooms st \<Longrightarrow> members_of st' = members_of st"
  by (intro ext) (simp add: members_of_def)

lemma server_ok_cong:
  assumes "clients st' = clients st" "rooms st' = rooms st" "nextId st' = nextId st"
  shows "server_ok st' = server_ok st"
  using assms members_of_cong[OF assms(2)]
  by (simp add: server_ok_def registry_ok_def sets_ok_def own_sockets_def ids_ok_def)

lemma set_set_add [simp]: "set (set_add x xs) = insert x (set xs)"
  by (auto simp: set_add_def)

lemma set_set_delete [simp]: "set (set_delete x xs) = set xs - {x}"
  by (auto simp: set_delete_def)

lemma distinct_set_add [simp]: "distinct (set_add x xs) = distinct xs"
  by (auto simp: set_add_def)

lemma distinct_set_delete [simp]: "distinct xs \<Longrightarrow> distinct (set_delete x xs)"
  by (simp add: set_delete_def distinct_removeAll)

lemma members_of_rooms:
  "rooms st' = (rooms st)(room \<mapsto> s) \<Longrightarrow>
   members_of st' r = (if r = room then s else members_of st r)"
  by (simp add: members_of_def)

lemma join_ok:
  assumes ok: "server_ok st" and c: "clients st cid = Some c"
  shows "server_ok (st\<lparr>clients := (clients st)(cid \<mapsto> c\<lparr>crooms := set_add room (crooms c), name := nm\<rparr>),
                        rooms := (rooms st)(room \<mapsto> set_add cid (members_of st room))\<rparr>)"
proof -
  let ?st = "st\<lparr>clients := (clients st)(cid \<mapsto> c\<lparr>crooms := set_add room (crooms c), name := nm\<rparr>),
                        rooms := (rooms st)(room \<mapsto> set_add cid (members_of st room))\<rparr>"
  have m: "members_of ?st r = (if r = room then set_add cid (members_of st room) else members_of st r)" for r
    by (rule members_of_rooms) simp
  have "registry_ok ?st"
    using ok c unfolding server_ok_def registry_ok_def by (auto simp: m)
  moreover have "sets_ok ?st"
    using ok c unfolding server_ok_def sets_ok_def by (auto simp: m)
  moreover have "own_sockets ?st"
    using ok c unfolding server_ok_def own_sockets_def by (auto split: if_splits)
  moreover have "ids_ok ?st"
    using ok c unfolding server_ok_def ids_ok_def by (auto split: if_splits)
  ultimately show ?thesis by (simp add: server_ok_def)
qed

lemma leave_ok:
  assumes ok: "server_ok st" and c: "clients st cid = Some c"
  shows "server_ok (st\<lparr>rooms := (rooms st)(room \<mapsto> set_delete cid (members_of st room)),
                        clients := (clients st)(cid \<mapsto> c\<lparr>crooms := set_delete room (crooms c)\<rparr>)\<rparr>)"
proof -
  let ?st = "st\<lparr>rooms := (rooms st)(room \<mapsto> set_delete cid (members_of st room)),
                        clients := (clients st)(cid \<mapsto> c\<lparr>crooms := set_delete room (crooms c)\<rparr>)\<rparr>"
  have m: "members_of ?st r = (if r = room then set_delete cid (members_of st room) else members_of st r)" for r
    by (rule members_of_rooms) simp
  have "registry_ok ?st"
    using ok c unfolding server_ok_def registry_ok_def by (auto simp: m)
  moreover have "sets_ok ?st"
    using ok c unfolding server_ok_def sets_ok_def by (auto simp: m)
  moreover have "own_sockets ?st"
    using ok c unfolding server_ok_def own_sockets_def by (auto split: if_splits)
  moreover have "ids_ok ?st"
    using ok c unfolding server_ok_def ids_ok_def by (auto split: if_splits)
  ultimately show ?thesis by (simp add: server_ok_def)
qed

lemma handleParsed_ok:
  assumes ok: "server_ok st" and h: "handleParsed rt cid p st = Inr st'"
  shows "server_ok st'"
proof (cases p)
  case ParsedNull
  then show ?thesis using h by (simp add: handleParsed_def)
next
  case (Parsed m)
  consider (join) "p_type m = JStr (jsstr ''join'')"
    | (leave) "p_type m \<noteq> JStr (jsstr ''join'')" "p_type m = JStr (jsstr ''leave'')"
    | (other) "p_type m \<noteq> JStr (jsstr ''join'')" "p_type m \<noteq> JStr (jsstr ''leave'')"
    by blast
  then show ?thesis
  proof cases
    case join
    then obtain c where c: "clients st cid = Some c"
      using h Parsed by (auto simp: handleParsed_def split: option.splits)
    define room where "room = js_or (p_room m) (JStr (jsstr ''lobby''))"
    define nm where "nm = js_or (p_name m) (js_or (name c) cid)"
    let ?st = "st\<lparr>clients := (clients st)(cid \<mapsto> c\<lparr>crooms := set_add room (crooms c), name := nm\<rparr>),
                          rooms := (rooms st)(room \<mapsto> set_add cid (members_of st room))\<rparr>"
    have "server_ok ?st"
      by (rule join_ok[OF ok c])
    moreover have "clients st' = clients ?st" "rooms st' = rooms ?st" "nextId st' = nextId ?st"
      using h Parsed join c
      by (auto simp: handleParsed_def Let_def room_def nm_def members_of_def split: sum.splits)
    ultimately show ?thesis
      using server_ok_cong by blast
  next
    case leave
    show ?thesis
    proof (cases "truthy (p_room m) \<and> rooms st (p_room m) \<noteq> None")
      case False
      then have "st' = st" using h Parsed leave by (auto simp: handleParsed_def Let_def)
      then show ?thesis using ok by simp
    next
      case True
      then obtain c where c: "clients st cid = Some c"
        using h Parsed leave by (auto simp: handleParsed_def Let_def split: option.splits)
      define room where "room = p_room m"
      have mo: "the (rooms st room) = members_of st room"
        using True by (auto simp: members_of_def room_def)
      let ?st = "st\<lparr>rooms := (rooms st)(room \<mapsto> set_delete cid (members_of st room)),
                          clients := (clients st)(cid \<mapsto> c\<lparr>crooms := set_delete room (crooms c)\<rparr>)\<rparr>"
      have "server_ok ?st"
        by (rule leave_ok[OF ok c])
      moreover have "clients st' = clients ?st" "rooms st' = rooms ?st" "nextId st' = nextId ?st"
        using h Parsed leave c True mo
        by (auto simp: handleParsed_def Let_def room_def split: sum.splits)
      ultimately show ?thesis
        using server_ok_cong by blast
    qed
  next
    case other
    then have "clients st' = clients st" "rooms st' = rooms st" "nextId st' = nextId st"
      using h Parsed by (auto simp: handleParsed_def Let_def split: if_splits)
    then show ?thesis using ok server_ok_cong by blast
  qed
qed

subsection \<open>Cleanup\<close>

lemma notice_returns:
  "template rt who = Inr t \<Longrightarrow>
   notice rt who what cid =
     Inr (Obj [(''type'', Val (JStr (jsstr ''notice''))),
               (''message'', Val (JStr (t @ jsstr what))), (''from'', Val cid)])"
  by (simp add: notice_def)

lemma notice_throws: "template rt who = Inl e \<Longrightarrow> notice rt who what cid = Inl e"
  by (simp add: notice_def)

lemma notice_template: "notice rt who what cid = Inr n \<Longrightarrow> \<exists>t. template rt who = Inr t"
  by (auto simp: notice_def split: sum.splits)

lemma cleanup_step_fields:
  assumes "cleanup_step rt cid c st r = Inr st'"
  shows "clients st' = clients st"
    "nextId st' = nextId st"
    "rooms st' room =
       (if room = r then map_option (set_delete cid) (rooms st r) else rooms st room)"
    "destroyed (sockets st' y) = destroyed (sockets st y)"
    "ended (sockets st' y) = ended (sockets st y)"
  using assms
  by (auto simp: cleanup_step_def Let_def socket_write_def split: option.splits sum.splits)

lemma cleanup_rooms_step:
  assumes "cleanup_rooms rt cid c st (r # rs) = Inr st'"
  obtains st1 where "cleanup_step rt cid c st r = Inr st1" "cleanup_rooms rt cid c st1 rs = Inr st'"
  using assms by (auto split: sum.splits)

lemma cleanup_rooms_fields:
  assumes "cleanup_rooms rt cid c st rs = Inr st'"
  shows "clients st' = clients st"
    "nextId st' = nextId st"
    "rooms st' room =
       (if room \<in> set rs then map_option (set_delete cid) (rooms st room) else rooms st room)"
    "destroyed (sockets st' y) = destroyed (sockets st y)"
    "ended (sockets st' y) = ended (sockets st y)"
proof -
  have idem: "map_option (set_delete cid) (map_option (set_delete cid) x) = map_option (set_delete cid) x" for x
    by (cases x) (simp_all add: set_delete_def)
  have "clients st' = clients st \<and> nextId st' = nextId st
      \<and> (\<forall>room. rooms st' room =
            (if room \<in> set rs then map_option (set_delete cid) (rooms st room) else rooms st room))
      \<and> (\<forall>y. destroyed (sockets st' y) = destroyed (sockets st y))
      \<and> (\<forall>y. ended (sockets st' y) = ended (sockets st y))"
    using assms
  proof (induction rs arbitrary: st)
    case Nil
    then show ?case by simp
  next
    case (Cons r rs)
    from Cons.prems obtain st1 where 1: "cleanup_step rt cid c st r = Inr st1"
      and 2: "cleanup_rooms rt cid c st1 rs = Inr st'"
      by (rule cleanup_rooms_step)
    show ?case
      using Cons.IH[OF 2] cleanup_step_fields[OF 1] by (simp add: idem)
  qed
  then show "clients st' = clients st"
    "nextId st' = nextId st"
    "rooms st' room =
       (if room \<in> set rs then map_option (set_delete cid) (rooms st room) else rooms st room)"
    "destroyed (sockets st' y) = destroyed (sockets st y)"
    "ended (sockets st' y) = ended (sockets st y)"
    by simp_all
qed

lemma cleanupClient_gone: "clients st cid = None \<Longrightarrow> cleanupClient rt cid st = Inr st"
  by (simp add: cleanupClient_def)

lemma cleanupClient_Some:
  assumes "clients st cid = Some c" "cleanupClient rt cid st = Inr st'"
  obtains st1 where "cleanup_rooms rt cid c st (crooms c) = Inr st1"
    "st' = (socket_destroy (socket c) st1)\<lparr>clients := (clients st1)(cid := None)\<rparr>"
  using assms by (auto simp: cleanupClient_def Let_def split: sum.splits)

lemma cleanup_clients:
  assumes "cleanupClient rt cid st = Inr st'"
  shows "clients st' = (clients st)(cid := None)" "nextId st' = nextId st"
proof -
  have "clients st' = (clients st)(cid := None) \<and> nextId st' = nextId st"
  proof (cases "clients st cid")
    case None
    then have "st' = st" using assms by (simp add: cleanupClient_def)
    then show ?thesis using None by auto
  next
    case (Some c)
    from Some assms obtain st1 where 1: "cleanup_rooms rt cid c st (crooms c) = Inr st1"
      and 2: "st' = (socket_destroy (socket c) st1)\<lparr>clients := (clients st1)(cid := None)\<rparr>"
      by (rule cleanupClient_Some)
    show ?thesis unfolding 2 by (simp add: cleanup_rooms_fields[OF 1])
  qed
  then show "clients st' = (clients st)(cid := None)" "nextId st' = nextId st" by simp_all
qed

lemma cleanup_members_of:
  assumes "clients st cid = Some c" "cleanupClient rt cid st = Inr st'"
  shows "members_of st' room =
     (if room \<in> set (crooms c) then set_delete cid (members_of st room) else members_of st room)"
proof -
  from assms obtain st1 where 1: "cleanup_rooms rt cid c st (crooms c) = Inr st1"
    and 2: "st' = (socket_destroy (socket c) st1)\<lparr>clients := (clients st1)(cid := None)\<rparr>"
    by (rule cleanupClient_Some)
  show ?thesis
    unfolding 2
    by (auto simp: members_of_def cleanup_rooms_fields[OF 1] set_delete_def split: option.splits)
qed

lemma cleanupClient_ok:
  assumes ok: "server_ok st" and r: "cleanupClient rt cid st = Inr st'"
  shows "server_ok st'"
proof (cases "clients st cid")
  case None
  then show ?thesis using ok r by (simp add: cleanupClient_def)
next
  case (Some c)
  note cl = cleanup_clients[OF r]
  note me = cleanup_members_of[OF Some r]
  have "registry_ok st'"
    using ok Some unfolding server_ok_def registry_ok_def
    by (auto simp: me cl)
  moreover have "sets_ok st'"
    using ok Some unfolding server_ok_def sets_ok_def
    by (auto simp: me cl)
  moreover have "own_sockets st'"
    using ok unfolding server_ok_def own_sockets_def
    by (auto simp: cl split: if_splits)
  moreover have "ids_ok st'"
    using ok unfolding server_ok_def ids_ok_def
    by (auto simp: cl split: if_splits)
  ultimately show ?thesis by (simp add: server_ok_def)
qed

lemma cleanupClient_again:
  assumes "cleanupClient rt cid st = Inr st'"
  shows "cleanupClient rt cid st' = Inr st'"
proof -
  have "clients st' cid = None"
    by (simp add: cleanup_clients[OF assms])
  then show ?thesis
    by (rule cleanupClient_gone)
qed

text \<open>The cleanup of a client whose name has a text returns.\<close>

lemma cleanup_step_returns:
  "template rt (name c) = Inr t \<Longrightarrow> \<exists>st'. cleanup_step rt cid c st r = Inr st'"
  by (simp add: cleanup_step_def Let_def notice_def split: option.splits)

lemma cleanup_rooms_returns:
  assumes "template rt (name c) = Inr t"
  shows "\<exists>st'. cleanup_rooms rt cid c st rs = Inr st'"
proof (induction rs arbitrary: st)
  case Nil
  show ?case by simp
next
  case (Cons r rs)
  obtain st1 where "cleanup_step rt cid c st r = Inr st1"
    using cleanup_step_returns[OF assms] by blast
  then show ?case using Cons[of st1] by simp
qed

lemma cleanupClient_returns:
  assumes "names_ok rt st"
  shows "\<exists>st'. cleanupClient rt cid st = Inr st'"
proof (cases "clients st cid")
  case None
  then show ?thesis by (simp add: cleanupClient_def)
next
  case (Some c)
  then obtain t where "template rt (name c) = Inr t"
    using assms unfolding names_ok_def by blast
  then obtain st1 where "cleanup_rooms rt cid c st (crooms c) = Inr st1"
    using cleanup_rooms_returns by blast
  then show ?thesis using Some by (simp add: cleanupClient_def Let_def)
qed

subsection \<open>Client identifiers\<close>

lemma digit_char: "n < 10 \<Longrightarrow> of_char (''0123456789'' ! n) = (48 + n :: nat)"
proof -
  assume n: "n < 10"
  have l: "map (of_char :: char \<Rightarrow> nat) ''0123456789'' = map ((+) 48) [0..<10]"
    by (simp add: upt_rec)
  have "of_char (''0123456789'' ! n) = map (of_char :: char \<Rightarrow> nat) ''0123456789'' ! n"
    using n by (intro nth_map[symmetric]) simp
  also have "\<dots> = 48 + n"
    unfolding l using n by (simp del: upt_Suc)
  finally show ?thesis .
qed

lemma decimal_value_decimal: "decimal_value (decimal n) = n"
proof (induction n rule: decimal.induct)
  case (1 n)
  show ?case
  proof (cases "n < 10")
    case True
    then show ?thesis by (subst decimal.simps) (simp add: decimal_value_def digit_char)
  next
    case False
    have "decimal_value (decimal n) = decimal_value (decimal (n div 10)) * 10 + n mod 10"
      using False by (subst decimal.simps) (simp add: decimal_value_def digit_char)
    then show ?thesis using 1 False by simp
  qed
qed

lemma decimal_inj: "decimal a = decimal b \<Longrightarrow> a = b"
  using decimal_value_decimal by metis

lemma jsstr_inj: "jsstr a = jsstr b \<Longrightarrow> a = b"
proof -
  have u: "unat (of_nat (of_char c) :: 16 word) = of_char c" for c :: char
  proof -
    have "(of_char c :: nat) mod 256 < 256" by simp
    then have "(of_char c :: nat) < 256" by (simp only: of_char_mod_256)
    then have "(of_char c :: nat) < 65536" by linarith
    moreover have "(2::nat) ^ LENGTH(16) = 65536" by simp
    ultimately have lt: "(of_char c :: nat) < 2 ^ LENGTH(16)" by (simp only:)
    have "unat (of_nat (of_char c) :: 16 word) = (of_char c :: nat) mod 2 ^ LENGTH(16)"
      by (rule unat_of_nat)
    also have "\<dots> = of_char c" by (rule mod_less[OF lt])
    finally show ?thesis .
  qed
  have "inj (\<lambda>c::char. (of_nat (of_char c) :: 16 word))"
  proof (rule injI)
    fix x y :: char
    assume "(of_nat (of_char x) :: 16 word) = of_nat (of_char y)"
    then have "unat (of_nat (of_char x) :: 16 word) = unat (of_nat (of_char y) :: 16 word)" by simp
    then show "x = y" unfolding u by simp
  qed
  then have "inj jsstr" unfolding jsstr_def[abs_def] by (rule inj_mapI)
  then show "jsstr a = jsstr b \<Longrightarrow> a = b" by (rule injD)
qed

lemma client_id_inj: "client_id a = client_id b \<Longrightarrow> a = b"
  by (auto simp: client_id_def dest!: jsstr_inj decimal_inj)

subsection \<open>Running states\<close>

lemma initial_ok: "server_ok initial"
  by (simp add: server_ok_def registry_ok_def sets_ok_def own_sockets_def ids_ok_def
      initial_def members_of_def)

lemma register_ok:
  assumes ok: "server_ok st"
    and s: "\<forall>cid c. clients st cid = Some c \<longrightarrow> socket c \<noteq> s"
  shows "server_ok (st\<lparr>nextId := nextId st + 1,
            clients := (clients st)(client_id (nextId st) \<mapsto> \<lparr>socket = s, crooms = [], name = client_id (nextId st)\<rparr>)\<rparr>)"
proof -
  let ?id = "client_id (nextId st)"
  let ?st = "st\<lparr>nextId := nextId st + 1,
            clients := (clients st)(?id \<mapsto> \<lparr>socket = s, crooms = [], name = ?id\<rparr>)\<rparr>"
  have fresh: "clients st ?id = None"
  proof (rule ccontr)
    assume "clients st ?id \<noteq> None"
    then obtain k where "k < nextId st" "?id = client_id k"
      using ok unfolding server_ok_def ids_ok_def by blast
    then show False using client_id_inj by blast
  qed
  have nomem: "?id \<notin> set (members_of st room)" for room
    using ok fresh unfolding server_ok_def registry_ok_def by blast
  have m: "members_of ?st = members_of st"
    by (rule members_of_cong) simp
  have "registry_ok ?st"
    using ok nomem unfolding server_ok_def registry_ok_def m by auto
  moreover have "sets_ok ?st"
    using ok unfolding server_ok_def sets_ok_def m by auto
  moreover have "own_sockets ?st"
    using ok s unfolding server_ok_def own_sockets_def by (auto split: if_splits)
  moreover have "ids_ok ?st"
    using ok unfolding server_ok_def ids_ok_def by (auto simp: less_Suc_eq split: if_splits)
  ultimately show ?thesis by (simp add: server_ok_def)
qed

lemma on_upgrade_ok:
  assumes ok: "server_ok st"
    and s: "\<forall>cid c. clients st cid = Some c \<longrightarrow> socket c \<noteq> s"
  shows "server_ok (fst (on_upgrade rt key s st))"
proof (cases "case key of None \<Rightarrow> None | Some k \<Rightarrow> if k = [] then None else Some k")
  case None
  then have "clients (fst (on_upgrade rt key s st)) = clients st"
    "rooms (fst (on_upgrade rt key s st)) = rooms st"
    "nextId (fst (on_upgrade rt key s st)) = nextId st"
    by (simp_all add: on_upgrade_def)
  then show ?thesis using ok server_ok_cong by blast
next
  case (Some k)
  let ?id = "client_id (nextId st)"
  let ?st = "st\<lparr>nextId := nextId st + 1,
            clients := (clients st)(?id \<mapsto> \<lparr>socket = s, crooms = [], name = ?id\<rparr>)\<rparr>"
  have "clients (fst (on_upgrade rt key s st)) = clients ?st"
    "rooms (fst (on_upgrade rt key s st)) = rooms ?st"
    "nextId (fst (on_upgrade rt key s st)) = nextId ?st"
    using Some by (simp_all add: on_upgrade_def Let_def genClientId_def split: prod.splits)
  then show ?thesis using register_ok[OF ok s] server_ok_cong by blast
qed

lemma reachable_ok: "reachable rt st \<Longrightarrow> server_ok st"
proof (induction rule: reachable.induct)
  case start
  show ?case by (rule initial_ok)
next
  case (upgrade st s key)
  then show ?case by (intro on_upgrade_ok)
next
  case (message st clientId p st')
  then show ?case using handleParsed_ok by blast
next
  case (cleanup st clientId st')
  then show ?case using cleanupClient_ok by blast
next
  case (wrote st s chunk)
  then show ?case using server_ok_cong[of "socket_write s chunk st" st] by simp
next
  case (ended st s)
  then show ?case using server_ok_cong[of "socket_end s st" st] by simp
next
  case (lost st s)
  then show ?case using server_ok_cong[of "socket_destroy s st" st] by simp
qed

lemma names_ok_cong: "clients st' = clients st \<Longrightarrow> names_ok rt st' = names_ok rt st"
  by (simp add: names_ok_def)

lemma handleParsed_names:
  assumes ok: "names_ok rt st" and h: "handleParsed rt cid p st = Inr st'"
  shows "names_ok rt st'"
proof (cases p)
  case ParsedNull
  then show ?thesis using h by (simp add: handleParsed_def)
next
  case (Parsed m)
  consider (join) "p_type m = JStr (jsstr ''join'')"
    | (leave) "p_type m \<noteq> JStr (jsstr ''join'')" "p_type m = JStr (jsstr ''leave'')"
    | (other) "p_type m \<noteq> JStr (jsstr ''join'')" "p_type m \<noteq> JStr (jsstr ''leave'')"
    by blast
  then show ?thesis
  proof cases
    case join
    then obtain c where c: "clients st cid = Some c"
      using h Parsed by (auto simp: handleParsed_def split: option.splits)
    define nm where "nm = js_or (p_name m) (js_or (name c) cid)"
    define room where "room = js_or (p_room m) (JStr (jsstr ''lobby''))"
    obtain n where n: "notice rt nm '' joined'' cid = Inr n"
      using h Parsed join c
      by (auto simp: handleParsed_def Let_def nm_def split: sum.splits)
    have cl: "clients st' = (clients st)(cid \<mapsto> c\<lparr>crooms := set_add room (crooms c), name := nm\<rparr>)"
      using h Parsed join c
      by (auto simp: handleParsed_def Let_def nm_def room_def split: sum.splits)
    show ?thesis
      using ok notice_template[OF n] unfolding names_ok_def cl by (auto split: if_splits)
  next
    case leave
    show ?thesis
    proof (cases "truthy (p_room m) \<and> rooms st (p_room m) \<noteq> None")
      case False
      then have "st' = st" using h Parsed leave by (auto simp: handleParsed_def Let_def)
      then show ?thesis using ok by simp
    next
      case True
      then obtain c where c: "clients st cid = Some c"
        using h Parsed leave by (auto simp: handleParsed_def Let_def split: option.splits)
      have cl: "clients st' = (clients st)(cid \<mapsto> c\<lparr>crooms := set_delete (p_room m) (crooms c)\<rparr>)"
        using h Parsed leave c True
        by (auto simp: handleParsed_def Let_def split: sum.splits)
      show ?thesis
        using ok c unfolding names_ok_def cl by (auto split: if_splits)
    qed
  next
    case other
    then have "clients st' = clients st"
      using h Parsed by (auto simp: handleParsed_def Let_def split: if_splits)
    then show ?thesis using ok names_ok_cong by blast
  qed
qed

lemma on_upgrade_names:
  assumes "names_ok rt st"
  shows "names_ok rt (fst (on_upgrade rt key s st))"
proof (cases "case key of None \<Rightarrow> None | Some k \<Rightarrow> if k = [] then None else Some k")
  case None
  then have "clients (fst (on_upgrade rt key s st)) = clients st"
    by (simp add: on_upgrade_def)
  then show ?thesis using assms names_ok_cong by blast
next
  case (Some k)
  have "clients (fst (on_upgrade rt key s st)) =
      (clients st)(client_id (nextId st) \<mapsto> \<lparr>socket = s, crooms = [], name = client_id (nextId st)\<rparr>)"
    using Some by (simp add: on_upgrade_def Let_def genClientId_def split: prod.splits)
  then show ?thesis
    using assms unfolding names_ok_def by (auto simp: client_id_def split: if_splits)
qed

lemma reachable_names: "reachable rt st \<Longrightarrow> names_ok rt st"
proof (induction rule: reachable.induct)
  case start
  show ?case by (simp add: names_ok_def initial_def)
next
  case (upgrade st s key)
  then show ?case by (intro on_upgrade_names)
next
  case (message st clientId p st')
  then show ?case using handleParsed_names by blast
next
  case (cleanup st clientId st')
  then show ?case unfolding names_ok_def by (auto simp: cleanup_clients split: if_splits)
next
  case (wrote st s chunk)
  then show ?case using names_ok_cong[of "socket_write s chunk st" st] by simp
next
  case (ended st s)
  then show ?case using names_ok_cong[of "socket_end s st" st] by simp
next
  case (lost st s)
  then show ?case using names_ok_cong[of "socket_destroy s st" st] by simp
qed

text \<open>The handlers of a connection lead from running states to running states.\<close>

lemma reachable_send: "reachable rt st \<Longrightarrow> reachable rt (sendToClient rt cid obj st)"
  by (auto simp: sendToClient_def intro: reachable.wrote split: option.splits)

lemma reachable_handleJsonMessage:
  "reachable rt st \<Longrightarrow> handleJsonMessage rt cid data st = Inr st' \<Longrightarrow> reachable rt st'"
  by (auto simp: handleJsonMessage_def intro: reachable_send reachable.message split: option.splits)

lemma reachable_data_loop:
  "reachable rt st \<Longrightarrow> data_loop rt cid s buf st = Inr (rest, st') \<Longrightarrow> reachable rt st'"
proof (induction rt cid s buf st rule: data_loop.induct)
  case (1 rt clientId s recvBuffer st)
  show ?case
  proof (cases "length recvBuffer > 2")
    case False
    then have "st' = st" using 1(6) by (subst (asm) data_loop.simps) simp
    then show ?thesis using 1(5) by simp
  next
    case True
    note big = this
    show ?thesis
    proof (cases "parseFrame recvBuffer")
      case (Inl e)
      then show ?thesis using 1(6) big by (subst (asm) data_loop.simps) simp
    next
      case (Inr fo)
      show ?thesis
      proof (cases fo)
        case None
        then have "st' = st" using 1(6) big Inr by (subst (asm) data_loop.simps) simp
        then show ?thesis using 1(5) by simp
      next
        case (Some fr)
        let ?rst = "drop (frameLen fr) recvBuffer"
        consider (c_close) "opcode fr = 0x8"
          | (c_ping) "opcode fr \<noteq> 0x8" "opcode fr = 0x9"
          | (c_pong) "opcode fr \<noteq> 0x8" "opcode fr \<noteq> 0x9" "opcode fr = 0xA"
          | (c_text) "opcode fr \<noteq> 0x8" "opcode fr \<noteq> 0x9" "opcode fr \<noteq> 0xA" "opcode fr = 0x1"
          | (c_other) "opcode fr \<noteq> 0x8" "opcode fr \<noteq> 0x9" "opcode fr \<noteq> 0xA" "opcode fr \<noteq> 0x1"
          by blast
        then show ?thesis
        proof cases
          case c_close
          then obtain st1 where "cleanupClient rt clientId st = Inr st1" "st' = socket_end s st1"
            using 1(6) big Inr Some
            by (subst (asm) data_loop.simps) (auto simp: Let_def split: sum.splits)
          then show ?thesis using 1(5) by (auto intro: reachable.ended reachable.cleanup)
        next
          case c_ping
          let ?st = "socket_write s ([0x8A, of_nat (length (payload fr))] @ Buffer_from (payload fr)) st"
          have "data_loop rt clientId s ?rst ?st = Inr (rest, st')"
            using 1(6) big Inr Some c_ping by (subst (asm) data_loop.simps) (simp add: Let_def)
          moreover have "reachable rt ?st" using 1(5) by (rule reachable.wrote)
          ultimately show ?thesis
            using 1(1)[OF big Inr Some refl c_ping] by simp
        next
          case c_pong
          have "data_loop rt clientId s ?rst st = Inr (rest, st')"
            using 1(6) big Inr Some c_pong by (subst (asm) data_loop.simps) (simp add: Let_def)
          then show ?thesis
            using 1(2)[OF big Inr Some refl c_pong] 1(5) by simp
        next
          case c_text
          obtain st1 where h: "handleJsonMessage rt clientId (payload fr) st = Inr st1"
            and l: "data_loop rt clientId s ?rst st1 = Inr (rest, st')"
            using 1(6) big Inr Some c_text
            by (subst (asm) data_loop.simps) (auto simp: Let_def split: sum.splits)
          have "reachable rt st1" using 1(5) h by (rule reachable_handleJsonMessage)
          then show ?thesis
            using 1(3)[OF big Inr Some refl c_text h] l by simp
        next
          case c_other
          have "data_loop rt clientId s ?rst st = Inr (rest, st')"
            using 1(6) big Inr Some c_other by (subst (asm) data_loop.simps) (simp add: Let_def)
          then show ?thesis
            using 1(4)[OF big Inr Some refl c_other] 1(5) by simp
        qed
      qed
    qed
  qed
qed

lemma sendToClient_self_written:
  assumes "clients st cid = Some c" "alive st (socket c)"
  shows "written (sockets (sendToClient rt cid obj st) (socket c)) =
           written (sockets st (socket c)) @ [buildTextFrame (JSON_stringify rt obj)]"
  using assms by (simp add: sendToClient_def socket_write_written alive_def)

lemma sendToClient_unknown: "clients st cid = None \<Longrightarrow> sendToClient rt cid obj st = st"
  by (simp add: sendToClient_def)

lemma sendToClient_dead:
  "\<forall>c. clients st cid = Some c \<longrightarrow> destroyed (sockets st (socket c)) \<Longrightarrow>
   sendToClient rt cid obj st = st"
  by (simp add: sendToClient_def split: option.splits)

subsection \<open>The sample states\<close>

lemma sample_ids:
  "client_id (Suc 0) = c1" "client_id (Suc (Suc 0)) = c2" "c1 \<noteq> c2" "c2 \<noteq> c1"
  by (simp_all add: client_id_def c1_def c2_def decimal.simps jsstr_def)

lemma two_clients_fields:
  "clients two_clients = [c1 \<mapsto> \<lparr>socket = 1, crooms = [], name = c1\<rparr>,
                          c2 \<mapsto> \<lparr>socket = 2, crooms = [], name = c2\<rparr>]"
  "rooms two_clients = Map.empty"
  "nextId two_clients = 3"
  "destroyed (sockets two_clients y) = False"
  "ended (sockets two_clients y) = False"
  by (simp_all add: two_clients_def on_upgrade_def Let_def genClientId_def initial_def sample_ids
      jsstr_def split: prod.splits)

lemma two_clients_reachable: "reachable rt0 two_clients"
proof -
  have 1: "reachable rt0 (fst (on_upgrade rt0 (Some (jsstr ''key'')) 1 initial))"
    by (intro reachable.upgrade reachable.start) (simp add: initial_def)
  have "clients (fst (on_upgrade rt0 (Some (jsstr ''key'')) 1 initial)) =
      [c1 \<mapsto> \<lparr>socket = 1, crooms = [], name = c1\<rparr>]"
    by (simp add: on_upgrade_def Let_def genClientId_def initial_def sample_ids jsstr_def
        split: prod.splits)
  then have 2: "\<forall>cid c. clients (fst (on_upgrade rt0 (Some (jsstr ''key'')) 1 initial)) cid = Some c
      \<longrightarrow> socket c \<noteq> 2"
    by (auto split: if_splits)
  show ?thesis
    unfolding two_clients_def by (rule reachable.upgrade[OF 1 2])
qed

lemma join_result:
  assumes "p_type m = JStr (jsstr ''join'')" "clients st cid = Some c"
    "template rt (js_or (p_name m) (js_or (name c) cid)) = Inr t"
  shows "\<exists>st'. handleParsed rt cid (Parsed m) st = Inr st'
     \<and> clients st' = (clients st)(cid \<mapsto> c\<lparr>crooms := set_add (js_or (p_room m) (JStr (jsstr ''lobby''))) (crooms c),
                                            name := js_or (p_name m) (js_or (name c) cid)\<rparr>)
     \<and> rooms st' = (rooms st)(js_or (p_room m) (JStr (jsstr ''lobby'')) \<mapsto>
                       set_add cid (members_of st (js_or (p_room m) (JStr (jsstr ''lobby'')))))
     \<and> nextId st' = nextId st
     \<and> (\<forall>y. destroyed (sockets st' y) = destroyed (sockets st y))
     \<and> (\<forall>y. ended (sockets st' y) = ended (sockets st y))"
  using assms by (simp add: handleParsed_def Let_def members_of_def notice_def)


lemma two_in_r1_step1:
  "\<exists>st1. handleParsed rt0 c1 (Parsed join_r1) two_clients = Inr st1
     \<and> clients st1 = [c1 \<mapsto> \<lparr>socket = 1, crooms = [r1], name = c1\<rparr>,
                       c2 \<mapsto> \<lparr>socket = 2, crooms = [], name = c2\<rparr>]
     \<and> rooms st1 = [r1 \<mapsto> [c1]] \<and> nextId st1 = 3
     \<and> (\<forall>y. \<not> destroyed (sockets st1 y)) \<and> (\<forall>y. \<not> ended (sockets st1 y))"
proof -
  have j: "p_type join_r1 = JStr (jsstr ''join'')" by (simp add: join_r1_def)
  have c: "clients two_clients c1 = Some \<lparr>socket = 1, crooms = [], name = c1\<rparr>"
    by (simp add: two_clients_fields sample_ids)
  have r: "js_or (p_room join_r1) (JStr (jsstr ''lobby'')) = r1"
    by (simp add: join_r1_def js_or_def r1_def jsstr_def)
  have n: "js_or (p_name join_r1) (js_or c1 c1) = c1"
    by (simp add: join_r1_def js_or_def)
  have t: "template rt0 (js_or (p_name join_r1)
             (js_or (name \<lparr>socket = 1, crooms = [], name = c1\<rparr>) c1)) = Inr (jsstr ''c1'')"
    by (simp add: join_r1_def js_or_def c1_def)
  obtain st1 where "handleParsed rt0 c1 (Parsed join_r1) two_clients = Inr st1"
    "clients st1 = (clients two_clients)(c1 \<mapsto> \<lparr>socket = 1, crooms = set_add r1 [], name = c1\<rparr>)"
    "rooms st1 = (rooms two_clients)(r1 \<mapsto> set_add c1 (members_of two_clients r1))"
    "nextId st1 = nextId two_clients"
    "\<forall>y. destroyed (sockets st1 y) = destroyed (sockets two_clients y)"
    "\<forall>y. ended (sockets st1 y) = ended (sockets two_clients y)"
    using join_result[OF j c t] unfolding r by (auto simp: n)
  then show ?thesis
    by (intro exI[of _ st1]) (auto simp: two_clients_fields set_add_def members_of_def sample_ids)
qed

lemma two_in_r1_fields:
  "clients two_in_r1 = [c1 \<mapsto> \<lparr>socket = 1, crooms = [r1], name = c1\<rparr>,
                        c2 \<mapsto> \<lparr>socket = 2, crooms = [r1], name = c2\<rparr>]"
  "rooms two_in_r1 = [r1 \<mapsto> [c1, c2]]"
  "nextId two_in_r1 = 3"
  "destroyed (sockets two_in_r1 y) = False"
  "ended (sockets two_in_r1 y) = False"
  "reachable rt0 two_in_r1"
proof -
  obtain st1 where 1: "handleParsed rt0 c1 (Parsed join_r1) two_clients = Inr st1"
    "clients st1 = [c1 \<mapsto> \<lparr>socket = 1, crooms = [r1], name = c1\<rparr>,
                    c2 \<mapsto> \<lparr>socket = 2, crooms = [], name = c2\<rparr>]"
    "rooms st1 = [r1 \<mapsto> [c1]]" "nextId st1 = 3"
    "\<forall>y. \<not> destroyed (sockets st1 y)" "\<forall>y. \<not> ended (sockets st1 y)"
    using two_in_r1_step1 by blast
  have j: "p_type join_r1 = JStr (jsstr ''join'')" by (simp add: join_r1_def)
  have c: "clients st1 c2 = Some \<lparr>socket = 2, crooms = [], name = c2\<rparr>"
    by (simp add: 1)
  have r: "js_or (p_room join_r1) (JStr (jsstr ''lobby'')) = r1"
    by (simp add: join_r1_def js_or_def r1_def jsstr_def)
  have n: "js_or (p_name join_r1) (js_or c2 c2) = c2"
    by (simp add: join_r1_def js_or_def)
  have t: "template rt0 (js_or (p_name join_r1)
             (js_or (name \<lparr>socket = 2, crooms = [], name = c2\<rparr>) c2)) = Inr (jsstr ''c2'')"
    by (simp add: join_r1_def js_or_def c2_def)
  obtain st2 where 2: "handleParsed rt0 c2 (Parsed join_r1) st1 = Inr st2"
    "clients st2 = (clients st1)(c2 \<mapsto> \<lparr>socket = 2, crooms = set_add r1 [], name = c2\<rparr>)"
    "rooms st2 = (rooms st1)(r1 \<mapsto> set_add c2 (members_of st1 r1))"
    "nextId st2 = nextId st1"
    "\<forall>y. destroyed (sockets st2 y) = destroyed (sockets st1 y)"
    "\<forall>y. ended (sockets st2 y) = ended (sockets st1 y)"
    using join_result[OF j c t] unfolding r by (auto simp: n)
  have e: "two_in_r1 = st2"
    by (simp add: two_in_r1_def 1 2)
  show "clients two_in_r1 = [c1 \<mapsto> \<lparr>socket = 1, crooms = [r1], name = c1\<rparr>,
                        c2 \<mapsto> \<lparr>socket = 2, crooms = [r1], name = c2\<rparr>]"
    unfolding e by (simp add: 1 2 set_add_def)
  show "rooms two_in_r1 = [r1 \<mapsto> [c1, c2]]"
    unfolding e by (simp add: 1 2 set_add_def members_of_def sample_ids)
  show "nextId two_in_r1 = 3"
    unfolding e by (simp add: 1 2)
  show "destroyed (sockets two_in_r1 y) = False"
    unfolding e by (simp add: 1 2)
  show "ended (sockets two_in_r1 y) = False"
    unfolding e by (simp add: 1 2)
  have "reachable rt0 st1"
    using two_clients_reachable 1(1) by (rule reachable.message)
  then show "reachable rt0 two_in_r1"
    unfolding e using 2(1) by (rule reachable.message)
qed

subsection \<open>Departure notices\<close>

lemma cleanup_step_written:
  assumes "own_sockets st" "clients st d = Some dc" "alive st (socket dc)" "d \<noteq> cid"
    "distinct (members_of st r)"
    and "cleanup_step rt cid c st r = Inr st'"
    and "notice rt (name c) '' disconnected'' cid = Inr n"
  shows "written (sockets st' (socket dc)) =
           written (sockets st (socket dc)) @
             (if d \<in> set (members_of st r) then [buildTextFrame (JSON_stringify rt n)] else [])"
proof (cases "rooms st r")
  case None
  then show ?thesis using assms(6) by (simp add: cleanup_step_def members_of_def)
next
  case (Some s)
  let ?st = "st\<lparr>rooms := (rooms st)(r \<mapsto> set_delete cid s)\<rparr>"
  have m: "members_of ?st r = set_delete cid s" "members_of st r = s"
    using Some by (simp_all add: members_of_def)
  have 1: "own_sockets ?st" using assms(1) by (simp add: own_sockets_def)
  have 2: "clients ?st d = Some dc" using assms(2) by simp
  have 3: "alive ?st (socket dc)" using assms(3) by (simp add: alive_def)
  have 4: "distinct (members_of ?st r)" using assms(5) unfolding m by simp
  have e: "st' = broadcastRoom rt r n cid ?st"
    using assms(6,7) Some by (simp add: cleanup_step_def Let_def)
  have "written (sockets ?st (socket dc)) = written (sockets st (socket dc))" by simp
  then show ?thesis
    unfolding e using broadcastRoom_written[OF 1 2 3 4, of rt n cid] assms(4)
    by (simp add: m)
qed

lemma cleanup_step_members_of:
  assumes "cleanup_step rt cid c st r = Inr st'"
  shows "members_of st' room =
     (if room = r then set_delete cid (members_of st room) else members_of st room)"
  by (cases "rooms st r") (simp_all add: members_of_def cleanup_step_fields[OF assms] set_delete_def)

lemma cleanup_rooms_written:
  assumes "own_sockets st" "clients st d = Some dc" "alive st (socket dc)" "d \<noteq> cid"
    "\<forall>room. distinct (members_of st room)"
    and "cleanup_rooms rt cid c st rs = Inr st'"
    and "notice rt (name c) '' disconnected'' cid = Inr n"
  shows "written (sockets st' (socket dc)) =
           written (sockets st (socket dc)) @
             map (\<lambda>room. buildTextFrame (JSON_stringify rt n))
               (filter (\<lambda>room. d \<in> set (members_of st room)) rs)"
  using assms(1,2,3,5,6)
proof (induction rs arbitrary: st)
  case Nil
  then show ?case by simp
next
  case (Cons r rs)
  from Cons.prems(5) obtain st1 where s1: "cleanup_step rt cid c st r = Inr st1"
    and s2: "cleanup_rooms rt cid c st1 rs = Inr st'"
    by (rule cleanup_rooms_step)
  note f = cleanup_step_fields[OF s1]
  note mo = cleanup_step_members_of[OF s1]
  have 1: "own_sockets st1" using Cons.prems(1) by (simp add: own_sockets_def f)
  have 2: "clients st1 d = Some dc" using Cons.prems(2) by (simp add: f)
  have 3: "alive st1 (socket dc)" using Cons.prems(3) by (simp add: alive_def f)
  have 5: "\<forall>room. distinct (members_of st1 room)"
    using Cons.prems(4) by (auto simp: mo)
  have mem: "(d \<in> set (members_of st1 room)) = (d \<in> set (members_of st room))" for room
    using assms(4) by (simp add: mo)
  have s: "written (sockets st1 (socket dc)) =
           written (sockets st (socket dc)) @
             (if d \<in> set (members_of st r) then [buildTextFrame (JSON_stringify rt n)] else [])"
    using Cons.prems(1,2,3,4) assms(4) s1 assms(7) by (intro cleanup_step_written) simp_all
  show ?case
    using Cons.IH[OF 1 2 3 5 s2] s by (simp add: mem)
qed

lemma cleanupClient_written:
  assumes "server_ok st" "clients st cid = Some c" "clients st d = Some dc" "d \<noteq> cid"
    "alive st (socket dc)"
    and "cleanupClient rt cid st = Inr st'"
    and "notice rt (name c) '' disconnected'' cid = Inr n"
  shows "written (sockets st' (socket dc)) =
           written (sockets st (socket dc)) @
             map (\<lambda>room. buildTextFrame (JSON_stringify rt n))
               (filter (\<lambda>room. d \<in> set (members_of st room)) (crooms c))"
proof -
  have o: "own_sockets st" and di: "\<forall>room. distinct (members_of st room)"
    using assms(1) by (simp_all add: server_ok_def sets_ok_def)
  from assms(2,6) obtain st1 where 1: "cleanup_rooms rt cid c st (crooms c) = Inr st1"
    and 2: "st' = (socket_destroy (socket c) st1)\<lparr>clients := (clients st1)(cid := None)\<rparr>"
    by (rule cleanupClient_Some)
  show ?thesis
    unfolding 2 using cleanup_rooms_written[OF o assms(3) assms(5) assms(4) di 1 assms(7)]
    by simp
qed

subsection \<open>The branches of the dispatcher\<close>

lemma kinds_distinct:
  "JStr (jsstr ''leave'') \<noteq> JStr (jsstr ''join'')"
  "JStr (jsstr ''msg'') \<noteq> JStr (jsstr ''join'')"
  "JStr (jsstr ''msg'') \<noteq> JStr (jsstr ''leave'')"
  "JStr (jsstr ''list'') \<noteq> JStr (jsstr ''join'')"
  "JStr (jsstr ''list'') \<noteq> JStr (jsstr ''leave'')"
  "JStr (jsstr ''list'') \<noteq> JStr (jsstr ''msg'')"
  "JStr (jsstr ''message'') \<noteq> JStr (jsstr ''join'')"
  "JStr (jsstr ''message'') \<noteq> JStr (jsstr ''leave'')"
  "JStr (jsstr ''message'') \<noteq> JStr (jsstr ''msg'')"
  "JStr (jsstr ''message'') \<noteq> JStr (jsstr ''list'')"
  by (simp_all add: jsstr_def)

lemma list_result:
  assumes "p_type q = JStr (jsstr ''list'')"
  shows "handleParsed rt cid (Parsed q) st =
     Inr (sendToClient rt cid
            (Obj [(''type'', Val (JStr (jsstr ''list''))),
                  (''room'', Val (js_or (p_room q) (JStr (jsstr ''lobby'')))),
                  (''members'',
                   Arr (map (\<lambda>id. Obj [(''id'', Val id),
                                         (''name'', Val (case clients st id of
                                                           None \<Rightarrow> JUndefined | Some c \<Rightarrow> name c))])
                          (members_of st (js_or (p_room q) (JStr (jsstr ''lobby''))))))]) st)"
  using assms kinds_distinct by (simp add: handleParsed_def Let_def members_of_def)


lemma unknown_result:
  assumes "p_type q \<noteq> JStr (jsstr ''join'')" "p_type q \<noteq> JStr (jsstr ''leave'')"
    "p_type q \<noteq> JStr (jsstr ''msg'')" "p_type q \<noteq> JStr (jsstr ''list'')"
  shows "handleParsed rt cid (Parsed q) st = Inr (sendToClient rt cid (error_reply ''unknown_type'') st)"
  using assms by (simp add: handleParsed_def)


lemma cleanup_gone:
  assumes "server_ok st" "cleanupClient rt clientId st = Inr st'"
  shows "clientId \<notin> set (members_of st' room)"
proof -
  have "clients st' clientId = None"
    by (simp add: cleanup_clients[OF assms(2)])
  moreover have "registry_ok st'"
    using cleanupClient_ok[OF assms] by (simp add: server_ok_def)
  ultimately show ?thesis
    unfolding registry_ok_def by blast
qed

lemma cleanup_after_end:
  assumes "cleanupClient rt cid st = Inr st'"
  shows "cleanupClient rt cid (socket_end s st') = Inr (socket_end s st')"
proof -
  have "clients (socket_end s st') cid = None"
    by (simp add: cleanup_clients[OF assms])
  then show ?thesis
    by (rule cleanupClient_gone)
qed

subsection \<open>What a message makes the server send\<close>

lemma sent_only_refl: "sent_only rt X st st"
  unfolding sent_only_def by (intro allI exI[of _ "[]"]) simp

lemma sent_only_same: "sockets st' = sockets st \<Longrightarrow> sent_only rt X st st'"
  unfolding sent_only_def by (intro allI exI[of _ "[]"]) simp

lemma sent_only_trans:
  assumes "sent_only rt X a b" "sent_only rt X b c"
  shows "sent_only rt X a c"
  unfolding sent_only_def
proof
  fix y
  obtain o1 where 1: "written (sockets b y) =
      written (sockets a y) @ map (\<lambda>obj. buildTextFrame (JSON_stringify rt obj)) o1" "set o1 \<subseteq> X"
    using assms(1) unfolding sent_only_def by blast
  obtain o2 where 2: "written (sockets c y) =
      written (sockets b y) @ map (\<lambda>obj. buildTextFrame (JSON_stringify rt obj)) o2" "set o2 \<subseteq> X"
    using assms(2) unfolding sent_only_def by blast
  show "\<exists>objs. written (sockets c y) =
      written (sockets a y) @ map (\<lambda>obj. buildTextFrame (JSON_stringify rt obj)) objs \<and> set objs \<subseteq> X"
    using 1 2 by (intro exI[of _ "o1 @ o2"]) simp
qed

lemma sent_only_write:
  assumes "obj \<in> X"
  shows "sent_only rt X st (socket_write s (buildTextFrame (JSON_stringify rt obj)) st)"
  unfolding sent_only_def
proof
  fix y
  let ?st = "socket_write s (buildTextFrame (JSON_stringify rt obj)) st"
  have "written (sockets ?st y) = written (sockets st y) \<or>
        written (sockets ?st y) = written (sockets st y) @ [buildTextFrame (JSON_stringify rt obj)]"
    by (simp add: socket_write_def)
  then show "\<exists>objs. written (sockets ?st y) =
      written (sockets st y) @ map (\<lambda>obj. buildTextFrame (JSON_stringify rt obj)) objs \<and> set objs \<subseteq> X"
  proof
    assume "written (sockets ?st y) = written (sockets st y)"
    then show ?thesis by (intro exI[of _ "[]"]) simp
  next
    assume "written (sockets ?st y) = written (sockets st y) @ [buildTextFrame (JSON_stringify rt obj)]"
    then show ?thesis using assms by (intro exI[of _ "[obj]"]) simp
  qed
qed

lemma sent_only_sendToClient:
  "obj \<in> X \<Longrightarrow> sent_only rt X st (sendToClient rt cid obj st)"
  by (auto simp: sendToClient_def sent_only_refl sent_only_write split: option.splits)

lemma sent_only_broadcast_step:
  "obj \<in> X \<Longrightarrow> sent_only rt X st (broadcast_step ex (buildTextFrame (JSON_stringify rt obj)) st cid)"
  by (auto simp: broadcast_step_def sent_only_refl sent_only_write split: option.splits)

lemma sent_only_broadcast_fold:
  assumes "obj \<in> X"
  shows "sent_only rt X st (foldl (broadcast_step ex (buildTextFrame (JSON_stringify rt obj))) st s)"
proof (induction s arbitrary: st)
  case Nil
  show ?case by (simp add: sent_only_refl)
next
  case (Cons a s)
  show ?case
    using sent_only_trans[OF sent_only_broadcast_step[OF assms] Cons] by simp
qed

lemma sent_only_broadcastRoom:
  "obj \<in> X \<Longrightarrow> sent_only rt X st (broadcastRoom rt room obj ex st)"
  by (auto simp: broadcastRoom_def Let_def sent_only_refl sent_only_broadcast_fold split: option.splits)

lemma sent_only_from: "sockets a' = sockets a \<Longrightarrow> sent_only rt X a' b = sent_only rt X a b"
  by (simp add: sent_only_def)

lemma not_unknown:
  "Obj ((''type'', Val (JStr (jsstr ''joined''))) # xs) \<noteq> error_reply ''unknown_type''"
  "Obj ((''type'', Val (JStr (jsstr ''left''))) # xs) \<noteq> error_reply ''unknown_type''"
  "Obj ((''type'', Val (JStr (jsstr ''notice''))) # xs) \<noteq> error_reply ''unknown_type''"
  "Obj ((''type'', Val (JStr (jsstr ''msg''))) # xs) \<noteq> error_reply ''unknown_type''"
  "Obj ((''type'', Val (JStr (jsstr ''list''))) # xs) \<noteq> error_reply ''unknown_type''"
  "error_reply ''no_room'' \<noteq> error_reply ''unknown_type''"
  by (simp_all add: error_reply_def jsstr_def)

lemma handleParsed_sent:
  assumes k: "p_type q = JStr (jsstr ''join'') \<or> p_type q = JStr (jsstr ''leave'')
            \<or> p_type q = JStr (jsstr ''msg'') \<or> p_type q = JStr (jsstr ''list'')"
    and h: "handleParsed rt cid (Parsed q) st = Inr st'"
  shows "sent_only rt (- {error_reply ''unknown_type''}) st st'"
proof -
  let ?X = "- {error_reply ''unknown_type''}"
  note send = sent_only_sendToClient[of _ ?X rt] 
  note cast = sent_only_broadcastRoom[of _ ?X rt]
  consider (join) "p_type q = JStr (jsstr ''join'')"
    | (leave) "p_type q \<noteq> JStr (jsstr ''join'')" "p_type q = JStr (jsstr ''leave'')"
    | (msg) "p_type q \<noteq> JStr (jsstr ''join'')" "p_type q \<noteq> JStr (jsstr ''leave'')"
        "p_type q = JStr (jsstr ''msg'')"
    | (list) "p_type q \<noteq> JStr (jsstr ''join'')" "p_type q \<noteq> JStr (jsstr ''leave'')"
        "p_type q \<noteq> JStr (jsstr ''msg'')" "p_type q = JStr (jsstr ''list'')"
    using k by blast
  then show ?thesis
  proof cases
    case join
    then obtain c where c: "clients st cid = Some c"
      using h by (auto simp: handleParsed_def split: option.splits)
    define room where "room = js_or (p_room q) (JStr (jsstr ''lobby''))"
    define nm where "nm = js_or (p_name q) (js_or (name c) cid)"
    define st1 where "st1 = st\<lparr>clients := (clients st)(cid \<mapsto> c\<lparr>crooms := set_add room (crooms c), name := nm\<rparr>),
        rooms := (rooms st)(room \<mapsto> set_add cid (case rooms st room of None \<Rightarrow> [] | Some s \<Rightarrow> s))\<rparr>"
    define st2 where "st2 = sendToClient rt cid
        (Obj [(''type'', Val (JStr (jsstr ''joined''))), (''room'', Val room), (''id'', Val cid)]) st1"
    obtain n where n: "notice rt nm '' joined'' cid = Inr n" and e: "st' = broadcastRoom rt room n cid st2"
      using h join c
      by (auto simp: handleParsed_def Let_def room_def nm_def st1_def st2_def split: sum.splits)
    have nn: "n \<in> ?X" using n by (auto simp: notice_def not_unknown split: sum.splits)
    have 1: "sent_only rt ?X st st1" by (rule sent_only_same) (simp add: st1_def)
    have 2: "sent_only rt ?X st1 st2" unfolding st2_def by (rule send) (simp add: not_unknown)
    have 3: "sent_only rt ?X st2 st'" unfolding e by (rule cast[OF nn])
    show ?thesis using 1 2 3 sent_only_trans by blast
  next
    case leave
    show ?thesis
    proof (cases "truthy (p_room q) \<and> rooms st (p_room q) \<noteq> None")
      case False
      then have "st' = st" using h leave by (auto simp: handleParsed_def Let_def)
      then show ?thesis by (simp add: sent_only_refl)
    next
      case True
      then obtain c where c: "clients st cid = Some c"
        using h leave by (auto simp: handleParsed_def Let_def split: option.splits)
      define room where "room = p_room q"
      define st1 where "st1 = st\<lparr>rooms := (rooms st)(room \<mapsto> set_delete cid (the (rooms st room))),
          clients := (clients st)(cid \<mapsto> c\<lparr>crooms := set_delete room (crooms c)\<rparr>)\<rparr>"
      define st2 where "st2 = sendToClient rt cid
          (Obj [(''type'', Val (JStr (jsstr ''left''))), (''room'', Val room)]) st1"
      obtain n where n: "notice rt (name c) '' left'' cid = Inr n" and e: "st' = broadcastRoom rt room n cid st2"
        using h leave c True
        by (auto simp: handleParsed_def Let_def room_def st1_def st2_def split: sum.splits)
      have nn: "n \<in> ?X" using n by (auto simp: notice_def not_unknown split: sum.splits)
      have 1: "sent_only rt ?X st st1" by (rule sent_only_same) (simp add: st1_def)
      have 2: "sent_only rt ?X st1 st2" unfolding st2_def by (rule send) (simp add: not_unknown)
      have 3: "sent_only rt ?X st2 st'" unfolding e by (rule cast[OF nn])
      show ?thesis using 1 2 3 sent_only_trans by blast
    qed
  next
    case msg
    show ?thesis
    proof (cases "truthy (p_to q)")
      case True
      define st1 where "st1 = sendToClient rt (p_to q)
          (Obj [(''type'', Val (JStr (jsstr ''msg''))), (''from'', Val cid),
                (''text'', Val (p_text q)), (''private'', Val (JBool True))]) st"
      have e: "st' = sendToClient rt cid
          (Obj [(''type'', Val (JStr (jsstr ''msg''))), (''from'', Val cid),
                (''to'', Val (p_to q)), (''text'', Val (p_text q)),
                (''private'', Val (JBool True))]) st1"
        using h msg True by (simp add: handleParsed_def Let_def st1_def)
      have 1: "sent_only rt ?X st st1" unfolding st1_def by (rule send) (simp add: not_unknown)
      have 2: "sent_only rt ?X st1 st'" unfolding e by (rule send) (simp add: not_unknown)
      show ?thesis using 1 2 sent_only_trans by blast
    next
      case False
      show ?thesis
      proof (cases "truthy (p_room q)")
        case True
        have e: "st' = broadcastRoom rt (p_room q)
            (Obj [(''type'', Val (JStr (jsstr ''msg''))), (''from'', Val cid),
                  (''text'', Val (p_text q)), (''room'', Val (p_room q))]) cid st"
          using h msg False True by (simp add: handleParsed_def Let_def)
        show ?thesis unfolding e by (rule cast) (simp add: not_unknown)
      next
        case nr: False
        have e: "st' = sendToClient rt cid (error_reply ''no_room'') st"
          using h msg False nr by (simp add: handleParsed_def Let_def)
        show ?thesis unfolding e by (rule send) (simp add: not_unknown)
      qed
    qed
  next
    case list
    have e: "st' = sendToClient rt cid
            (Obj [(''type'', Val (JStr (jsstr ''list''))),
                  (''room'', Val (js_or (p_room q) (JStr (jsstr ''lobby'')))),
                  (''members'',
                   Arr (map (\<lambda>id. Obj [(''id'', Val id),
                                         (''name'', Val (case clients st id of
                                                           None \<Rightarrow> JUndefined | Some c \<Rightarrow> name c))])
                          (members_of st (js_or (p_room q) (JStr (jsstr ''lobby''))))))]) st"
      using h list_result[OF list(4), of rt cid st] by simp
    show ?thesis unfolding e by (rule send) (simp add: not_unknown)
  qed
qed


section \<open>Properties of the decode loop\<close>

lemma data_loop_short: "length buf \<le> 2 \<Longrightarrow> data_loop rt cid s buf st = Inr (buf, st)"
  by (subst data_loop.simps) simp

lemma data_loop_text:
  assumes "2 < length buf" "parseFrame buf = Inr (Some fr)" "opcode fr = 1"
    "payload fr = pl" "drop (frameLen fr) buf = rest"
  shows "data_loop rt cid s buf st =
     (case handleJsonMessage rt cid pl st of
        Inl e \<Rightarrow> Inl e
      | Inr st' \<Rightarrow> data_loop rt cid s rest st')"
  using assms by (subst data_loop.simps) (auto simp: Let_def)

lemma data_loop_ping:
  assumes "2 < length buf" "parseFrame buf = Inr (Some fr)" "opcode fr = 9"
    "payload fr = pl" "drop (frameLen fr) buf = rest"
  shows "data_loop rt cid s buf st =
     data_loop rt cid s rest
       (socket_write s ([0x8A, of_nat (length pl)] @ Buffer_from pl) st)"
  using assms by (subst data_loop.simps) (auto simp: Let_def)

lemma data_loop_last:
  "(case r of Inl e \<Rightarrow> Inl e | Inr st' \<Rightarrow> data_loop rt cid s [] st') =
   (case r of Inl e \<Rightarrow> Inl e | Inr st' \<Rightarrow> Inr ([], st'))"
  by (simp add: data_loop_short split: sum.splits)

lemma parse_buildTextFrame:
  assumes "length (buildTextFrame P) < 2 ^ 53"
  shows "parseFrame (buildTextFrame P @ rest) =
           Inr (Some \<lparr>fin = True, opcode = 1, payload = toWellFormed P,
                      frameLen = length (buildTextFrame P)\<rparr>)"
proof -
  define pl where "pl = Buffer_from P"
  define n where "n = length pl"
  have dec: "toString_utf8 pl = toWellFormed P"
    unfolding pl_def by (rule toString_Buffer_from)
  have len: "length (buildTextFrame P) = n + (if n < 126 then 2 else if n < 65536 then 4 else 10)"
    unfolding n_def pl_def by (rule length_buildTextFrame)
  have b0: "(0x81 :: byte) AND 0x80 \<noteq> 0" "(0x81 :: byte) AND 0x0f = 1"
    by simp_all
  consider (short) "n < 126" | (medium) "126 \<le> n" "n < 65536" | (long) "65536 \<le> n"
    by linarith
  then show ?thesis
  proof cases
    case short
    have "buildTextFrame P @ rest = 0x81 # of_nat (length pl) # pl @ rest"
      using short by (simp add: buildTextFrame_def Let_def pl_def n_def)
    then show ?thesis
      using parse_short[of pl "0x81" rest] short b0 dec len by (simp add: n_def)
  next
    case medium
    have "buildTextFrame P @ rest = 0x81 # 126 # be_bytes 2 (length pl) @ pl @ rest"
      using medium by (simp add: buildTextFrame_def Let_def pl_def n_def del: be_bytes.simps)
    then show ?thesis
      using parse_medium[of pl "0x81" rest] medium b0 dec len by (simp add: n_def del: be_bytes.simps)
  next
    case long
    have "buildTextFrame P @ rest = 0x81 # 127 # be_bytes 8 (length pl) @ pl @ rest"
      using long by (simp add: buildTextFrame_def Let_def pl_def n_def del: be_bytes.simps)
    moreover have "10 + length pl < 2 ^ 53"
      using assms long len by (simp add: n_def)
    ultimately show ?thesis
      using parse_long[of pl "0x81" rest] long b0 dec len by (simp add: n_def del: be_bytes.simps)
  qed
qed

lemma data_loop_buildTextFrame:
  assumes "length (buildTextFrame P) < 2 ^ 53" "2 < length (buildTextFrame P @ rest)"
  shows "data_loop rt cid s (buildTextFrame P @ rest) st =
     (case handleJsonMessage rt cid (toWellFormed P) st of
        Inl e \<Rightarrow> Inl e
      | Inr st' \<Rightarrow> data_loop rt cid s rest st')"
  by (rule data_loop_text[OF assms(2) parse_buildTextFrame[OF assms(1)]]) simp_all



lemma ascii_hi: "Buffer_from (jsstr ''hi'') = [0x68, 0x69]" "toWellFormed (jsstr ''hi'') = jsstr ''hi''"
  "jsstr ''hi'' = [0x68, 0x69]"
  by (simp_all add: jsstr_def is_high_surrogate_def is_low_surrogate_def utf8_cp_def)

lemma frame_hi: "buildTextFrame (jsstr ''hi'') = [0x81, 0x02, 0x68, 0x69]"
  unfolding buildTextFrame_def ascii_hi(1) by simp


lemma ascii_decode: "toString_utf8 (replicate n 0x61) = replicate n 0x61"
  unfolding toString_utf8_def by (induction n) (simp_all add: Let_def)

lemma ascii_encode: "Buffer_from (replicate n 0x61) = replicate n 0x61"
proof (induction n)
  case 0
  show ?case by simp
next
  case (Suc n)
  have "Buffer_from (0x61 # replicate n 0x61) = utf8_cp (unat (0x61 :: 16 word)) @ Buffer_from (replicate n 0x61)"
    by (rule Buffer_from_unit) (simp_all add: is_high_surrogate_def is_low_surrogate_def)
  then show ?case using Suc by (simp add: utf8_cp_def)
qed

section \<open>The claims\<close>




text \<open>
  C2. The code does not do this. With the first three bytes of the frame for
  \<^verbatim>\<open>hi\<close> in the buffer, \<^verbatim>\<open>parseFrame\<close> returns a frame whose payload
  is the one byte that is there and whose \<open>frameLen\<close> is 4; with a 16-bit length
  announced and one of its two bytes there, it throws. Fed one byte at a time, the read
  loop waits for the first two bytes, and on the third it dispatches the truncated payload
  \<^verbatim>\<open>h\<close> and empties the buffer.
\<close>

theorem truncated_frame_decoded:
  "take 3 (buildTextFrame (jsstr ''hi'')) = [0x81, 0x02, 0x68]
   \<and> parseFrame [0x81, 0x02, 0x68] =
       Inr (Some \<lparr>fin = True, opcode = 1, payload = jsstr ''h'', frameLen = 4\<rparr>)
   \<and> parseFrame [0x81, 0x7E, 0x00] = Inl RangeError
   \<and> data_loop rt clientId s [0x81] st = Inr ([0x81], st)
   \<and> data_loop rt clientId s [0x81, 0x02] st = Inr ([0x81, 0x02], st)
   \<and> data_loop rt clientId s [0x81, 0x02, 0x68] st =
       (case handleJsonMessage rt clientId (jsstr ''h'') st of
          Inl e \<Rightarrow> Inl e
        | Inr st' \<Rightarrow> Inr ([], st'))"
proof -
  have p: "parseFrame [0x81, 0x02, 0x68] =
       Inr (Some \<lparr>fin = True, opcode = 1, payload = jsstr ''h'', frameLen = 4\<rparr>)"
    by (simp add: parseFrame_def Let_def js_add_small slice_def toString_utf8_def jsstr_def)
  have r: "parseFrame [0x81, 0x7E, 0x00] = Inl RangeError"
    by (simp add: parseFrame_def Let_def readUInt16BE_def)
  have t: "take 3 (buildTextFrame (jsstr ''hi'')) = [0x81, 0x02, 0x68]"
    unfolding frame_hi by simp
  have "data_loop rt clientId s [0x81, 0x02, 0x68] st =
       (case handleJsonMessage rt clientId (jsstr ''h'') st of
          Inl e \<Rightarrow> Inl e
        | Inr st' \<Rightarrow> data_loop rt clientId s [] st')"
    by (rule data_loop_text[OF _ p]) simp_all
  then show ?thesis
    using p r t by (simp add: data_loop_short data_loop_last)
qed

text \<open>
  C3. Decoding the frame that \<^verbatim>\<open>buildTextFrame\<close> builds for a text \<open>P\<close> gives a
  final text frame whose payload is \<open>P\<close> and whose \<open>frameLen\<close> is the length of the
  encoded frame. The payload comes back as the string that the payload bytes spell: its
  bytes are the bytes of \<open>P\<close>, and it is \<open>P\<close> itself when \<open>P\<close> is well formed. The
  encoder takes the shortest header (2 bytes below 126 payload bytes, 4 bytes below 65536,
  10 bytes otherwise), its first byte is FIN with the text opcode, the mask bit is clear
  and the payload bytes follow the header as they are. The encoded frame is a
  \<^verbatim>\<open>Buffer\<close>, whose length is a safe integer.
\<close>

theorem frame_roundtrip:
  assumes "length (buildTextFrame P) < 2 ^ 53"
  shows "parseFrame (buildTextFrame P) =
           Inr (Some \<lparr>fin = True, opcode = 1, payload = toWellFormed P,
                      frameLen = length (buildTextFrame P)\<rparr>)
         \<and> Buffer_from (toWellFormed P) = Buffer_from P
         \<and> (isWellFormed P \<longrightarrow> toWellFormed P = P)
         \<and> length (buildTextFrame P) =
             length (Buffer_from P) +
               (if length (Buffer_from P) < 126 then 2
                else if length (Buffer_from P) < 65536 then 4 else 10)
         \<and> buildTextFrame P ! 0 = 0x81
         \<and> buildTextFrame P ! 1 AND 0x80 = 0
         \<and> drop (length (buildTextFrame P) - length (Buffer_from P)) (buildTextFrame P) = Buffer_from P"
proof -
  define pl where "pl = Buffer_from P"
  define n where "n = length pl"
  have dec: "toString_utf8 pl = toWellFormed P"
    unfolding pl_def by (rule toString_Buffer_from)
  have len: "length (buildTextFrame P) = n + (if n < 126 then 2 else if n < 65536 then 4 else 10)"
    unfolding n_def pl_def by (rule length_buildTextFrame)
  have b0: "(0x81 :: byte) AND 0x80 \<noteq> 0" "(0x81 :: byte) AND 0x0f = 1"
    by simp_all
  consider (short) "n < 126" | (medium) "126 \<le> n" "n < 65536" | (long) "65536 \<le> n"
    by linarith
  then have parse: "parseFrame (buildTextFrame P) =
           Inr (Some \<lparr>fin = True, opcode = 1, payload = toWellFormed P,
                      frameLen = length (buildTextFrame P)\<rparr>)"
  proof cases
    case short
    have "buildTextFrame P = 0x81 # of_nat (length pl) # pl @ []"
      using short by (simp add: buildTextFrame_def Let_def pl_def n_def)
    then show ?thesis
      using parse_short[of pl "0x81" "[]"] short b0 dec len by (simp add: n_def)
  next
    case medium
    have "buildTextFrame P = 0x81 # 126 # be_bytes 2 (length pl) @ pl @ []"
      using medium by (simp add: buildTextFrame_def Let_def pl_def n_def del: be_bytes.simps)
    then show ?thesis
      using parse_medium[of pl "0x81" "[]"] medium b0 dec len by (simp add: n_def del: be_bytes.simps)
  next
    case long
    have "buildTextFrame P = 0x81 # 127 # be_bytes 8 (length pl) @ pl @ []"
      using long by (simp add: buildTextFrame_def Let_def pl_def n_def del: be_bytes.simps)
    moreover have "10 + length pl < 2 ^ 53"
      using assms long len by (simp add: n_def)
    ultimately show ?thesis
      using parse_long[of pl "0x81" "[]"] long b0 dec len by (simp add: n_def del: be_bytes.simps)
  qed
  have first: "buildTextFrame P ! 0 = 0x81"
    by (simp add: buildTextFrame_def Let_def)
  have second: "buildTextFrame P ! 1 AND 0x80 = 0"
  proof (cases "n < 126")
    case True
    then have u: "unat (of_nat n :: byte) = n" by (intro unat_byte) simp
    have "\<not> ((of_nat n :: byte) AND 0x80 \<noteq> 0)" unfolding and80 u using True by simp
    then show ?thesis using True by (simp add: buildTextFrame_def Let_def pl_def n_def)
  next
    case False
    then show ?thesis by (simp add: buildTextFrame_def Let_def pl_def n_def)
  qed
  have tail: "drop (length (buildTextFrame P) - length (Buffer_from P)) (buildTextFrame P) = Buffer_from P"
    unfolding length_buildTextFrame by (simp add: buildTextFrame_def Let_def length_be_bytes)
  show ?thesis
    using parse Buffer_from_toWellFormed first second tail length_buildTextFrame
    by (simp add: toWellFormed_id)
qed

theorem frame_roundtrip_witness:
  "length (buildTextFrame (jsstr ''hello'')) < 2 ^ 53
   \<and> isWellFormed (jsstr ''hello'')
   \<and> parseFrame (buildTextFrame (jsstr ''hello'')) =
       Inr (Some \<lparr>fin = True, opcode = 1, payload = jsstr ''hello'', frameLen = 7\<rparr>)
   \<and> parseFrame (buildTextFrame []) =
       Inr (Some \<lparr>fin = True, opcode = 1, payload = [], frameLen = 2\<rparr>)
   \<and> parseFrame (buildTextFrame (replicate 10 0x61)) =
       Inr (Some \<lparr>fin = True, opcode = 1, payload = replicate 10 0x61, frameLen = 12\<rparr>)
   \<and> parseFrame (buildTextFrame (replicate 200 0x61)) =
       Inr (Some \<lparr>fin = True, opcode = 1, payload = replicate 200 0x61, frameLen = 204\<rparr>)
   \<and> parseFrame (buildTextFrame (replicate 100000 0x61)) =
       Inr (Some \<lparr>fin = True, opcode = 1, payload = replicate 100000 0x61,
                  frameLen = 100010\<rparr>)"
proof -
  have b: "Buffer_from (jsstr ''hello'') = [0x68, 0x65, 0x6C, 0x6C, 0x6F]"
    by (simp add: jsstr_def is_high_surrogate_def is_low_surrogate_def utf8_cp_def)
  have l: "length (buildTextFrame (jsstr ''hello'')) = 7"
    by (simp add: length_buildTextFrame b)
  have w: "isWellFormed (jsstr ''hello'')"
    by (simp add: jsstr_def is_high_surrogate_def is_low_surrogate_def)
  have h: "length (buildTextFrame (jsstr ''hello'')) < 2 ^ 53"
    by (simp add: l)
  have hello: "parseFrame (buildTextFrame (jsstr ''hello'')) =
       Inr (Some \<lparr>fin = True, opcode = 1, payload = jsstr ''hello'', frameLen = 7\<rparr>)"
    using frame_roundtrip [OF h] w l by simp
  have ln: "length (buildTextFrame (replicate n 0x61)) =
              n + (if n < 126 then 2 else if n < 65536 then 4 else 10)" for n
    by (simp add: length_buildTextFrame ascii_encode)
  have r: "parseFrame (buildTextFrame (replicate n 0x61)) =
       Inr (Some \<lparr>fin = True, opcode = 1, payload = replicate n 0x61,
                  frameLen = n + (if n < 126 then 2 else if n < 65536 then 4 else 10)\<rparr>)"
    if "n < 2 ^ 52" for n
  proof -
    have "length (buildTextFrame (replicate n 0x61)) < 2 ^ 53"
      unfolding ln using that by simp
    from frame_roundtrip [OF this] show ?thesis
      using wellFormed_replicate_a[of n] ln[of n] by simp
  qed
  have e: "parseFrame (buildTextFrame []) =
       Inr (Some \<lparr>fin = True, opcode = 1, payload = [], frameLen = 2\<rparr>)"
    using r[of 0] by simp
  have r10: "parseFrame (buildTextFrame (replicate 10 0x61)) =
       Inr (Some \<lparr>fin = True, opcode = 1, payload = replicate 10 0x61, frameLen = 12\<rparr>)"
    using r[of 10] by simp
  have r200: "parseFrame (buildTextFrame (replicate 200 0x61)) =
       Inr (Some \<lparr>fin = True, opcode = 1, payload = replicate 200 0x61, frameLen = 204\<rparr>)"
    using r[of 200] by simp
  have r100000: "parseFrame (buildTextFrame (replicate 100000 0x61)) =
       Inr (Some \<lparr>fin = True, opcode = 1, payload = replicate 100000 0x61,
                  frameLen = 100010\<rparr>)"
    using r[of 100000] by simp
  show ?thesis
    using h w hello e r10 r200 r100000 by blast
qed

text \<open>
  C4. The code does not do this when the second frame has an empty payload: the loop
  runs only while more than two bytes are buffered, and the frame of the empty text is
  two bytes. The first frame is dispatched and the second, which \<^verbatim>\<open>parseFrame\<close>
  would decode, is left in the receive buffer. The empty frame alone is not decoded
  either.
\<close>

theorem trailing_empty_frame_left:
  "buildTextFrame (jsstr ''hi'') @ buildTextFrame [] = [0x81, 0x02, 0x68, 0x69, 0x81, 0x00]
   \<and> parseFrame (buildTextFrame []) =
       Inr (Some \<lparr>fin = True, opcode = 1, payload = [], frameLen = 2\<rparr>)
   \<and> data_loop rt clientId s (buildTextFrame (jsstr ''hi'') @ buildTextFrame []) st =
       (case handleJsonMessage rt clientId (jsstr ''hi'') st of
          Inl e \<Rightarrow> Inl e
        | Inr st' \<Rightarrow> Inr ([0x81, 0x00], st'))
   \<and> data_loop rt clientId s (buildTextFrame []) st = Inr ([0x81, 0x00], st)"
proof -
  have e: "buildTextFrame [] = [0x81, 0x00]" by (simp add: buildTextFrame_def)
  have p: "parseFrame (buildTextFrame []) =
       Inr (Some \<lparr>fin = True, opcode = 1, payload = [], frameLen = 2\<rparr>)"
    unfolding e by (simp add: parseFrame_def Let_def js_add_small slice_def toString_utf8_def)
  have "data_loop rt clientId s (buildTextFrame (jsstr ''hi'') @ buildTextFrame []) st =
       (case handleJsonMessage rt clientId (toWellFormed (jsstr ''hi'')) st of
          Inl e \<Rightarrow> Inl e
        | Inr st' \<Rightarrow> data_loop rt clientId s (buildTextFrame []) st')"
    by (rule data_loop_buildTextFrame) (simp_all add: frame_hi)
  then have "data_loop rt clientId s (buildTextFrame (jsstr ''hi'') @ buildTextFrame []) st =
       (case handleJsonMessage rt clientId (jsstr ''hi'') st of
          Inl e \<Rightarrow> Inl e
        | Inr st' \<Rightarrow> Inr ([0x81, 0x00], st'))"
    unfolding ascii_hi(2) by (simp add: e data_loop_short split: sum.splits)
  moreover have "buildTextFrame (jsstr ''hi'') @ buildTextFrame [] = [0x81, 0x02, 0x68, 0x69, 0x81, 0x00]"
    unfolding frame_hi e by simp
  moreover have "data_loop rt clientId s (buildTextFrame []) st = Inr ([0x81, 0x00], st)"
    unfolding e by (simp add: data_loop_short)
  ultimately show ?thesis
    using p by blast
qed

text \<open>
  C5. As stated, the claim fails: the relayed kind is \<^verbatim>\<open>msg\<close>, and a message of
  kind \<^verbatim>\<open>message\<close> is an unknown kind. Client \<open>c1\<close> sends
  \<^verbatim>\<open>{type: "message", room: "r1", text: "hi"}\<close> while \<open>c1\<close> and \<open>c2\<close>
  are in room \<open>r1\<close>: the sender gets the \<^verbatim>\<open>unknown_type\<close> error and
  \<open>c2\<close>, whose socket takes writes, gets nothing.
\<close>

theorem message_kind_counterexample:
  "handleParsed rt0 c1 (Parsed message_r1) two_in_r1 =
     Inr (sendToClient rt0 c1 (error_reply ''unknown_type'') two_in_r1)
   \<and> c2 \<in> set (members_of two_in_r1 r1)
   \<and> clients two_in_r1 c2 = Some \<lparr>socket = 2, crooms = [r1], name = c2\<rparr>
   \<and> alive two_in_r1 2
   \<and> written (sockets (sendToClient rt0 c1 (error_reply ''unknown_type'') two_in_r1) 2) =
       written (sockets two_in_r1 2)
   \<and> written (sockets (sendToClient rt0 c1 (error_reply ''unknown_type'') two_in_r1) 1) =
       written (sockets two_in_r1 1) @
         [buildTextFrame (JSON_stringify rt0 (error_reply ''unknown_type''))]"
proof -
  have t: "p_type message_r1 = JStr (jsstr ''message'')" by (simp add: message_r1_def)
  have 1: "handleParsed rt0 c1 (Parsed message_r1) two_in_r1 =
     Inr (sendToClient rt0 c1 (error_reply ''unknown_type'') two_in_r1)"
    by (rule unknown_result) (simp_all add: t jsstr_def)
  have c: "clients two_in_r1 c1 = Some \<lparr>socket = 1, crooms = [r1], name = c1\<rparr>"
    "clients two_in_r1 c2 = Some \<lparr>socket = 2, crooms = [r1], name = c2\<rparr>"
    by (simp_all add: two_in_r1_fields sample_ids)
  have a: "alive two_in_r1 y" for y by (simp add: alive_def two_in_r1_fields)
  have o: "own_sockets two_in_r1"
    using reachable_ok[OF two_in_r1_fields(6)] by (simp add: server_ok_def)
  have 2: "written (sockets (sendToClient rt0 c1 (error_reply ''unknown_type'') two_in_r1) 2) =
       written (sockets two_in_r1 2)"
    using sendToClient_written[OF o c(2), of rt0 c1] by (simp add: sample_ids)
  have 3: "written (sockets (sendToClient rt0 c1 (error_reply ''unknown_type'') two_in_r1) 1) =
       written (sockets two_in_r1 1) @
         [buildTextFrame (JSON_stringify rt0 (error_reply ''unknown_type''))]"
    using sendToClient_self_written[OF c(1), of rt0] a by simp
  show ?thesis
    using 1 2 3 c a by (simp add: members_of_def two_in_r1_fields)
qed

text \<open>
  C5, amended. In every running state, a message of kind \<^verbatim>\<open>msg\<close> with no
  \<^verbatim>\<open>to\<close> and with a room is broadcast to that room: every client whose socket
  takes writes gets the frame once if it is a member of the room other than the sender,
  and gets nothing otherwise; the sender need not be a member. The
  \<^verbatim>\<open>unknown_type\<close> error is the answer to every kind other than
  \<^verbatim>\<open>join\<close>, \<^verbatim>\<open>leave\<close>, \<^verbatim>\<open>msg\<close> and
  \<^verbatim>\<open>list\<close>, written to the sender when its socket takes writes, and to these
  four kinds only: whatever a message of one of the four kinds makes the server write to
  a socket is the frame of another object.
\<close>

theorem msg_room_broadcast:
  assumes "reachable rt st"
    and "p_type m = JStr (jsstr ''msg'')" and "\<not> truthy (p_to m)" and "truthy (p_room m)"
    and "obj = Obj [(''type'', Val (JStr (jsstr ''msg''))), (''from'', Val clientId),
                    (''text'', Val (p_text m)), (''room'', Val (p_room m))]"
  shows "handleParsed rt clientId (Parsed m) st = Inr (broadcastRoom rt (p_room m) obj clientId st)
     \<and> (\<forall>d dc. clients st d = Some dc \<and> alive st (socket dc) \<longrightarrow>
          written (sockets (broadcastRoom rt (p_room m) obj clientId st) (socket dc)) =
            written (sockets st (socket dc)) @
              (if d \<in> set (members_of st (p_room m)) \<and> d \<noteq> clientId
               then [buildTextFrame (JSON_stringify rt obj)] else []))
     \<and> (\<forall>q. p_type q \<noteq> JStr (jsstr ''join'') \<and> p_type q \<noteq> JStr (jsstr ''leave'')
            \<and> p_type q \<noteq> JStr (jsstr ''msg'') \<and> p_type q \<noteq> JStr (jsstr ''list'') \<longrightarrow>
          handleParsed rt clientId (Parsed q) st =
            Inr (sendToClient rt clientId (error_reply ''unknown_type'') st))
     \<and> (\<forall>c. clients st clientId = Some c \<and> alive st (socket c) \<longrightarrow>
          written (sockets (sendToClient rt clientId (error_reply ''unknown_type'') st) (socket c)) =
            written (sockets st (socket c)) @
              [buildTextFrame (JSON_stringify rt (error_reply ''unknown_type''))])
     \<and> (\<forall>q st'. (p_type q = JStr (jsstr ''join'') \<or> p_type q = JStr (jsstr ''leave'')
                \<or> p_type q = JStr (jsstr ''msg'') \<or> p_type q = JStr (jsstr ''list''))
              \<and> handleParsed rt clientId (Parsed q) st = Inr st' \<longrightarrow>
          (\<forall>y. \<exists>objs. written (sockets st' y) =
                   written (sockets st y) @
                     map (\<lambda>obj. buildTextFrame (JSON_stringify rt obj)) objs
                 \<and> error_reply ''unknown_type'' \<notin> set objs))"
proof -
  have ok: "own_sockets st" "\<forall>room. distinct (members_of st room)"
    using reachable_ok[OF assms(1)] by (simp_all add: server_ok_def sets_ok_def)
  have 1: "handleParsed rt clientId (Parsed m) st = Inr (broadcastRoom rt (p_room m) obj clientId st)"
    using assms(2-5) kinds_distinct by (simp add: handleParsed_def Let_def)
  have 2: "written (sockets (broadcastRoom rt (p_room m) obj clientId st) (socket dc)) =
            written (sockets st (socket dc)) @
              (if d \<in> set (members_of st (p_room m)) \<and> d \<noteq> clientId
               then [buildTextFrame (JSON_stringify rt obj)] else [])"
    if "clients st d = Some dc" "alive st (socket dc)" for d dc
    using broadcastRoom_written[OF ok(1) that] ok(2) by blast
  have 3: "written (sockets (sendToClient rt clientId (error_reply ''unknown_type'') st) (socket c)) =
            written (sockets st (socket c)) @
              [buildTextFrame (JSON_stringify rt (error_reply ''unknown_type''))]"
    if "clients st clientId = Some c" "alive st (socket c)" for c
    using that by (rule sendToClient_self_written)
  have 4: "\<exists>objs. written (sockets st' y) =
                   written (sockets st y) @
                     map (\<lambda>obj. buildTextFrame (JSON_stringify rt obj)) objs
                 \<and> error_reply ''unknown_type'' \<notin> set objs"
    if "p_type q = JStr (jsstr ''join'') \<or> p_type q = JStr (jsstr ''leave'')
          \<or> p_type q = JStr (jsstr ''msg'') \<or> p_type q = JStr (jsstr ''list'')"
      "handleParsed rt clientId (Parsed q) st = Inr st'" for q st' y
    using handleParsed_sent[OF that] unfolding sent_only_def by blast
  show ?thesis
    apply (intro conjI)
    subgoal by (rule 1)
    subgoal using 2 by blast
    subgoal using unknown_result by blast
    subgoal using 3 by blast
    subgoal using 4 by blast
    done
qed

theorem msg_room_broadcast_witness:
  "reachable rt0 two_in_r1 \<and> p_type msg_r1 = JStr (jsstr ''msg'') \<and> \<not> truthy (p_to msg_r1)
   \<and> truthy (p_room msg_r1)
   \<and> (\<exists>st'. handleParsed rt0 c1 (Parsed msg_r1) two_in_r1 = Inr st'
        \<and> written (sockets st' 2) =
            written (sockets two_in_r1 2) @
              [buildTextFrame (JSON_stringify rt0
                 (Obj [(''type'', Val (JStr (jsstr ''msg''))), (''from'', Val c1),
                       (''text'', Val (JStr (jsstr ''hi''))), (''room'', Val r1)]))]
        \<and> written (sockets st' 1) = written (sockets two_in_r1 1))
   \<and> handleParsed rt0 c1 (Parsed message_r1) two_in_r1 =
       Inr (sendToClient rt0 c1 (error_reply ''unknown_type'') two_in_r1)
   \<and> written (sockets (sendToClient rt0 c1 (error_reply ''unknown_type'') two_in_r1) 1) =
       written (sockets two_in_r1 1) @
         [buildTextFrame (JSON_stringify rt0 (error_reply ''unknown_type''))]
   \<and> (\<exists>st' objs. handleParsed rt0 c1 (Parsed list_plain) two_in_r1 = Inr st'
        \<and> written (sockets st' 1) =
            written (sockets two_in_r1 1) @
              map (\<lambda>obj. buildTextFrame (JSON_stringify rt0 obj)) objs
        \<and> error_reply ''unknown_type'' \<notin> set objs)"
proof -
  have h: "p_type msg_r1 = JStr (jsstr ''msg'')" "\<not> truthy (p_to msg_r1)" "truthy (p_room msg_r1)"
    by (simp_all add: msg_r1_def r1_def jsstr_def)
  have c: "clients two_in_r1 c1 = Some \<lparr>socket = 1, crooms = [r1], name = c1\<rparr>"
    "clients two_in_r1 c2 = Some \<lparr>socket = 2, crooms = [r1], name = c2\<rparr>"
    by (simp_all add: two_in_r1_fields sample_ids)
  have a: "alive two_in_r1 y" for y by (simp add: alive_def two_in_r1_fields)
  have m: "members_of two_in_r1 r1 = [c1, c2]"
    by (simp add: members_of_def two_in_r1_fields)
  let ?obj = "Obj [(''type'', Val (JStr (jsstr ''msg''))), (''from'', Val c1),
                    (''text'', Val (p_text msg_r1)), (''room'', Val (p_room msg_r1))]"
  let ?st = "broadcastRoom rt0 (p_room msg_r1) ?obj c1 two_in_r1"
  have r: "handleParsed rt0 c1 (Parsed msg_r1) two_in_r1 = Inr ?st"
    and w: "\<forall>d dc. clients two_in_r1 d = Some dc \<and> alive two_in_r1 (socket dc) \<longrightarrow>
          written (sockets ?st (socket dc)) =
            written (sockets two_in_r1 (socket dc)) @
              (if d \<in> set (members_of two_in_r1 (p_room msg_r1)) \<and> d \<noteq> c1
               then [buildTextFrame (JSON_stringify rt0 ?obj)] else [])"
    and u: "\<forall>q. p_type q \<noteq> JStr (jsstr ''join'') \<and> p_type q \<noteq> JStr (jsstr ''leave'')
            \<and> p_type q \<noteq> JStr (jsstr ''msg'') \<and> p_type q \<noteq> JStr (jsstr ''list'') \<longrightarrow>
          handleParsed rt0 c1 (Parsed q) two_in_r1 =
            Inr (sendToClient rt0 c1 (error_reply ''unknown_type'') two_in_r1)"
    and e: "\<forall>c. clients two_in_r1 c1 = Some c \<and> alive two_in_r1 (socket c) \<longrightarrow>
          written (sockets (sendToClient rt0 c1 (error_reply ''unknown_type'') two_in_r1) (socket c)) =
            written (sockets two_in_r1 (socket c)) @
              [buildTextFrame (JSON_stringify rt0 (error_reply ''unknown_type''))]"
    and o: "\<forall>q st'. (p_type q = JStr (jsstr ''join'') \<or> p_type q = JStr (jsstr ''leave'')
                \<or> p_type q = JStr (jsstr ''msg'') \<or> p_type q = JStr (jsstr ''list''))
              \<and> handleParsed rt0 c1 (Parsed q) two_in_r1 = Inr st' \<longrightarrow>
          (\<forall>y. \<exists>objs. written (sockets st' y) =
                   written (sockets two_in_r1 y) @
                     map (\<lambda>obj. buildTextFrame (JSON_stringify rt0 obj)) objs
                 \<and> error_reply ''unknown_type'' \<notin> set objs)"
    using msg_room_broadcast [OF two_in_r1_fields(6) h refl, of c1] by blast+
  have pr: "p_room msg_r1 = r1" "p_text msg_r1 = JStr (jsstr ''hi'')" by (simp_all add: msg_r1_def)
  have w2: "written (sockets ?st 2) = written (sockets two_in_r1 2) @ [buildTextFrame (JSON_stringify rt0 ?obj)]"
    using w[rule_format, of c2 "\<lparr>socket = 2, crooms = [r1], name = c2\<rparr>"] c a
    by (simp add: pr m sample_ids)
  have w1: "written (sockets ?st 1) = written (sockets two_in_r1 1)"
    using w[rule_format, of c1 "\<lparr>socket = 1, crooms = [r1], name = c1\<rparr>"] c a
    by (simp add: pr m)
  have k: "p_type message_r1 \<noteq> JStr (jsstr ''join'')" "p_type message_r1 \<noteq> JStr (jsstr ''leave'')"
    "p_type message_r1 \<noteq> JStr (jsstr ''msg'')" "p_type message_r1 \<noteq> JStr (jsstr ''list'')"
    by (simp_all add: message_r1_def jsstr_def)
  have u1: "handleParsed rt0 c1 (Parsed message_r1) two_in_r1 =
       Inr (sendToClient rt0 c1 (error_reply ''unknown_type'') two_in_r1)"
    using u k by blast
  have e1: "written (sockets (sendToClient rt0 c1 (error_reply ''unknown_type'') two_in_r1) 1) =
       written (sockets two_in_r1 1) @
         [buildTextFrame (JSON_stringify rt0 (error_reply ''unknown_type''))]"
    using e[rule_format, of "\<lparr>socket = 1, crooms = [r1], name = c1\<rparr>"] c a by simp
  obtain st2 where l: "handleParsed rt0 c1 (Parsed list_plain) two_in_r1 = Inr st2"
    using list_result[of list_plain rt0 c1 two_in_r1] by (simp add: list_plain_def)
  have lk: "p_type list_plain = JStr (jsstr ''list'')" by (simp add: list_plain_def)
  obtain objs where "written (sockets st2 1) =
            written (sockets two_in_r1 1) @
              map (\<lambda>obj. buildTextFrame (JSON_stringify rt0 obj)) objs"
    "error_reply ''unknown_type'' \<notin> set objs"
    using o lk l by blast
  then have o1: "\<exists>st' objs. handleParsed rt0 c1 (Parsed list_plain) two_in_r1 = Inr st'
        \<and> written (sockets st' 1) =
            written (sockets two_in_r1 1) @
              map (\<lambda>obj. buildTextFrame (JSON_stringify rt0 obj)) objs
        \<and> error_reply ''unknown_type'' \<notin> set objs"
    using l by blast
  have m: "\<exists>st'. handleParsed rt0 c1 (Parsed msg_r1) two_in_r1 = Inr st'
        \<and> written (sockets st' 2) =
            written (sockets two_in_r1 2) @
              [buildTextFrame (JSON_stringify rt0
                 (Obj [(''type'', Val (JStr (jsstr ''msg''))), (''from'', Val c1),
                       (''text'', Val (JStr (jsstr ''hi''))), (''room'', Val r1)]))]
        \<and> written (sockets st' 1) = written (sockets two_in_r1 1)"
    using r w1 w2 by (simp add: pr)
  show ?thesis
    using two_in_r1_fields(6) h m u1 e1 o1 by blast
qed

text \<open>
  C6. The code does not do this. The pong is built from the payload as a string: its
  length byte is the number of UTF-16 code units and its payload is the string encoded
  again. A masked ping with the two payload bytes C3 A9 is answered with a pong that
  announces one byte and carries two; a ping with the payload byte FF is answered with
  the three bytes EF BF BD; a ping with 126 payload bytes is answered with a pong whose
  second byte is 126, which a decoder reads as the marker of a 16-bit length.
\<close>

theorem pong_not_the_ping_payload:
  "data_loop rt clientId s [0x89, 0x82, 1, 2, 3, 4, 0xC2, 0xAB] st =
     Inr ([], socket_write s [0x8A, 0x01, 0xC3, 0xA9] st)
   \<and> parseFrame [0x89, 0x82, 1, 2, 3, 4, 0xC2, 0xAB] =
       Inr (Some \<lparr>fin = True, opcode = 9, payload = [0xE9], frameLen = 8\<rparr>)
   \<and> Buffer_from [0xE9] = [0xC3, 0xA9]
   \<and> data_loop rt clientId s [0x89, 0x81, 0, 0, 0, 0, 0xFF] st =
       Inr ([], socket_write s [0x8A, 0x01, 0xEF, 0xBF, 0xBD] st)
   \<and> data_loop rt clientId s ([0x89, 0x7E, 0x00, 0x7E] @ replicate 126 0x61) st =
       Inr ([], socket_write s ([0x8A, 0x7E] @ replicate 126 0x61) st)
   \<and> parseFrame ([0x8A, 0x7E] @ replicate 126 0x61) =
       Inr (Some \<lparr>fin = True, opcode = 0xA, payload = replicate 124 0x61, frameLen = 24933\<rparr>)"
proof -
  have p1: "parseFrame [0x89, 0x82, 1, 2, 3, 4, 0xC2, 0xAB] =
       Inr (Some \<lparr>fin = True, opcode = 9, payload = [0xE9], frameLen = 8\<rparr>)"
    by (simp add: parseFrame_def Let_def js_add_small slice_def toString_utf8_def unmask_def
        utf16_cp_def)
  have e1: "Buffer_from [0xE9] = [0xC3, 0xA9]"
    by (simp add: is_high_surrogate_def is_low_surrogate_def utf8_cp_def)
  have l1: "data_loop rt clientId s [0x89, 0x82, 1, 2, 3, 4, 0xC2, 0xAB] st =
     data_loop rt clientId s [] (socket_write s ([0x8A, of_nat (length [0xE9 :: 16 word])] @ Buffer_from [0xE9]) st)"
    by (rule data_loop_ping[OF _ p1]) simp_all
  have p2: "parseFrame [0x89, 0x81, 0, 0, 0, 0, 0xFF] =
       Inr (Some \<lparr>fin = True, opcode = 9, payload = [0xFFFD], frameLen = 7\<rparr>)"
    by (simp add: parseFrame_def Let_def js_add_small slice_def toString_utf8_def unmask_def)
  have e2: "Buffer_from [0xFFFD] = [0xEF, 0xBF, 0xBD]"
    by (simp add: is_high_surrogate_def is_low_surrogate_def utf8_cp_def)
  have l2: "data_loop rt clientId s [0x89, 0x81, 0, 0, 0, 0, 0xFF] st =
     data_loop rt clientId s [] (socket_write s ([0x8A, of_nat (length [0xFFFD :: 16 word])] @ Buffer_from [0xFFFD]) st)"
    by (rule data_loop_ping[OF _ p2]) simp_all
  have b: "be_bytes 2 (length (replicate 126 (0x61 :: byte))) = [0x00, 0x7E]"
    by (simp add: numeral_2_eq_2)
  have p3: "parseFrame ([0x89, 0x7E, 0x00, 0x7E] @ replicate 126 0x61) =
       Inr (Some \<lparr>fin = True, opcode = 9, payload = replicate 126 0x61, frameLen = 130\<rparr>)"
    using parse_medium[of "replicate 126 0x61" "0x89" "[]"] unfolding b
    by (simp add: ascii_decode)
  have l3: "data_loop rt clientId s ([0x89, 0x7E, 0x00, 0x7E] @ replicate 126 0x61) st =
     data_loop rt clientId s []
       (socket_write s ([0x8A, of_nat (length (replicate 126 (0x61 :: 16 word)))] @ Buffer_from (replicate 126 0x61)) st)"
    by (rule data_loop_ping[OF _ p3]) simp_all
  have p4: "parseFrame ([0x8A, 0x7E] @ replicate 126 0x61) =
       Inr (Some \<lparr>fin = True, opcode = 0xA, payload = replicate 124 0x61, frameLen = 24933\<rparr>)"
  proof -
    have "replicate (2 + 124) (0x61 :: byte) = replicate 2 0x61 @ replicate 124 0x61"
      by (rule replicate_add)
    then have r: "replicate 126 (0x61 :: byte) = [0x61, 0x61] @ replicate 124 0x61"
      by (simp add: numeral_2_eq_2)
    show ?thesis
      unfolding r
      by (simp add: parseFrame_def Let_def js_add_small slice_def readUInt16BE_def be_nat_def
          ascii_decode)
  qed
  have f1: "data_loop rt clientId s [0x89, 0x82, 1, 2, 3, 4, 0xC2, 0xAB] st =
     Inr ([], socket_write s [0x8A, 0x01, 0xC3, 0xA9] st)"
    unfolding l1 e1 by (simp add: data_loop_short)
  have f2: "data_loop rt clientId s [0x89, 0x81, 0, 0, 0, 0, 0xFF] st =
       Inr ([], socket_write s [0x8A, 0x01, 0xEF, 0xBF, 0xBD] st)"
    unfolding l2 e2 by (simp add: data_loop_short)
  have f3: "data_loop rt clientId s ([0x89, 0x7E, 0x00, 0x7E] @ replicate 126 0x61) st =
       Inr ([], socket_write s ([0x8A, 0x7E] @ replicate 126 0x61) st)"
    unfolding l3 ascii_encode by (simp add: data_loop_short)
  show ?thesis
    using p1 e1 p4 f1 f2 f3 by blast
qed

text \<open>
  C7. In every running state the registry is consistent, and it is so again after every
  dispatched message (a join, a leave or any other), after every cleanup, which returns,
  and after every read event: a client is a member of a room exactly when the room is one
  of its rooms, and every member of a room is a client of the \<^verbatim>\<open>clients\<close> map.
\<close>

theorem registry_consistent:
  assumes "reachable rt st"
  shows "registry_ok st
     \<and> (\<forall>clientId p st'. handleParsed rt clientId p st = Inr st' \<longrightarrow> registry_ok st')
     \<and> (\<forall>clientId data st'. handleJsonMessage rt clientId data st = Inr st' \<longrightarrow> registry_ok st')
     \<and> (\<forall>clientId. \<exists>st'. cleanupClient rt clientId st = Inr st' \<and> registry_ok st')
     \<and> (\<forall>conn buf conn' st'. on_data rt conn buf st = Inr (conn', st') \<longrightarrow> registry_ok st')"
proof -
  have ok: "registry_ok x" if "reachable rt x" for x
    using reachable_ok[OF that] by (simp add: server_ok_def)
  have d: "reachable rt st'" if "on_data rt conn buf st = Inr (conn', st')" for conn buf conn' st'
    using that assms
    by (auto simp: on_data_def split: sum.splits prod.splits intro: reachable_data_loop)
  have cl: "\<exists>st'. cleanupClient rt clientId st = Inr st' \<and> registry_ok st'" for clientId
  proof -
    obtain st' where "cleanupClient rt clientId st = Inr st'"
      using cleanupClient_returns[OF reachable_names[OF assms]] by blast
    then show ?thesis
      using ok reachable.cleanup[OF assms] by blast
  qed
  show ?thesis
    apply (intro conjI)
    subgoal using ok assms by blast
    subgoal using ok assms by (blast intro: reachable.message)
    subgoal using ok assms by (blast intro: reachable_handleJsonMessage)
    subgoal using cl by blast
    subgoal using ok d by blast
    done
qed

theorem registry_consistent_witness:
  "reachable rt0 two_in_r1 \<and> registry_ok two_in_r1
   \<and> members_of two_in_r1 r1 = [c1, c2]
   \<and> (\<exists>st'. cleanupClient rt0 c1 two_in_r1 = Inr st' \<and> registry_ok st'
        \<and> members_of st' r1 = [c2])"
proof -
  have c: "clients two_in_r1 c1 = Some \<lparr>socket = 1, crooms = [r1], name = c1\<rparr>"
    by (simp add: two_in_r1_fields sample_ids)
  have m: "members_of two_in_r1 r1 = [c1, c2]"
    by (simp add: members_of_def two_in_r1_fields)
  obtain st' where s: "cleanupClient rt0 c1 two_in_r1 = Inr st'" "registry_ok st'"
    using registry_consistent [OF two_in_r1_fields(6)] by blast
  have "members_of st' r1 = [c2]"
    by (simp add: cleanup_members_of[OF c s(1)] m set_delete_def sample_ids)
  then show ?thesis
    using registry_consistent [OF two_in_r1_fields(6)] two_in_r1_fields(6) m s by blast
qed

text \<open>
  C8. For a client of a running state, the cleanup returns and a second cleanup changes
  nothing, whether it follows the first at once or after the socket was ended (the close
  frame, then the \<^verbatim>\<open>close\<close> event). The first cleanup sends every other client
  whose socket takes writes one departure notice for each room of the leaving client that
  it is a member of, and the rooms of a client have no duplicates. After the cleanup the
  identifier is in no room, so no list names it.
\<close>

theorem cleanup_twice:
  assumes "reachable rt st" and "clients st clientId = Some c"
  shows "\<exists>st1 n. cleanupClient rt clientId st = Inr st1
     \<and> notice rt (name c) '' disconnected'' clientId = Inr n
     \<and> cleanupClient rt clientId st1 = Inr st1
     \<and> cleanupClient rt clientId (socket_end s st1) = Inr (socket_end s st1)
     \<and> distinct (crooms c)
     \<and> (\<forall>d dc. clients st d = Some dc \<and> d \<noteq> clientId \<and> alive st (socket dc) \<longrightarrow>
          written (sockets st1 (socket dc)) =
            written (sockets st (socket dc)) @
              map (\<lambda>room. buildTextFrame (JSON_stringify rt n))
                (filter (\<lambda>room. d \<in> set (members_of st room)) (crooms c)))
     \<and> (\<forall>room. clientId \<notin> set (members_of st1 room))
     \<and> (\<forall>d q. p_type q = JStr (jsstr ''list'') \<longrightarrow>
          handleParsed rt d (Parsed q) st1 =
            Inr (sendToClient rt d
                   (Obj [(''type'', Val (JStr (jsstr ''list''))),
                         (''room'', Val (js_or (p_room q) (JStr (jsstr ''lobby'')))),
                         (''members'',
                          Arr (map (\<lambda>id. Obj [(''id'', Val id),
                                                (''name'', Val (case clients st1 id of
                                                                  None \<Rightarrow> JUndefined
                                                                | Some c \<Rightarrow> name c))])
                                 (members_of st1
                                    (js_or (p_room q) (JStr (jsstr ''lobby''))))))])
                   st1))"
proof -
  have ok: "server_ok st" using assms(1) by (rule reachable_ok)
  have nm: "names_ok rt st" using assms(1) by (rule reachable_names)
  have d: "distinct (crooms c)"
    using ok assms(2) unfolding server_ok_def sets_ok_def by blast
  obtain st1 where r: "cleanupClient rt clientId st = Inr st1"
    using cleanupClient_returns[OF nm] by blast
  obtain t where "template rt (name c) = Inr t"
    using nm assms(2) unfolding names_ok_def by blast
  then obtain n where n: "notice rt (name c) '' disconnected'' clientId = Inr n"
    using notice_returns by blast
  have w: "\<forall>d dc. clients st d = Some dc \<and> d \<noteq> clientId \<and> alive st (socket dc) \<longrightarrow>
          written (sockets st1 (socket dc)) =
            written (sockets st (socket dc)) @
              map (\<lambda>room. buildTextFrame (JSON_stringify rt n))
                (filter (\<lambda>room. d \<in> set (members_of st room)) (crooms c))"
    using cleanupClient_written[OF ok assms(2) _ _ _ r n] by blast
  have g: "\<forall>room. clientId \<notin> set (members_of st1 room)"
    using cleanup_gone[OF ok r] by blast
  show ?thesis
    apply (intro exI[of _ st1] exI[of _ n] conjI)
    subgoal by (rule r)
    subgoal by (rule n)
    subgoal by (rule cleanupClient_again[OF r])
    subgoal by (rule cleanup_after_end[OF r])
    subgoal by (rule d)
    subgoal by (rule w)
    subgoal by (rule g)
    subgoal using list_result by blast
    done
qed

theorem cleanup_twice_witness:
  "reachable rt0 two_in_r1
   \<and> clients two_in_r1 c1 = Some \<lparr>socket = 1, crooms = [r1], name = c1\<rparr>
   \<and> clients two_in_r1 c2 = Some \<lparr>socket = 2, crooms = [r1], name = c2\<rparr>
   \<and> alive two_in_r1 2
   \<and> (\<exists>st1. cleanupClient rt0 c1 two_in_r1 = Inr st1
        \<and> written (sockets st1 2) =
            written (sockets two_in_r1 2) @
              [buildTextFrame (JSON_stringify rt0
                 (Obj [(''type'', Val (JStr (jsstr ''notice''))),
                       (''message'', Val (JStr (jsstr ''c1'' @ jsstr '' disconnected''))),
                       (''from'', Val c1)]))]
        \<and> cleanupClient rt0 c1 st1 = Inr st1
        \<and> cleanupClient rt0 c1 (socket_end 1 st1) = Inr (socket_end 1 st1)
        \<and> members_of st1 r1 = [c2])"
proof -
  have c: "clients two_in_r1 c1 = Some \<lparr>socket = 1, crooms = [r1], name = c1\<rparr>"
    "clients two_in_r1 c2 = Some \<lparr>socket = 2, crooms = [r1], name = c2\<rparr>"
    by (simp_all add: two_in_r1_fields sample_ids)
  have a: "alive two_in_r1 y" for y by (simp add: alive_def two_in_r1_fields)
  have m: "members_of two_in_r1 r1 = [c1, c2]"
    by (simp add: members_of_def two_in_r1_fields)
  obtain st1 n where r: "cleanupClient rt0 c1 two_in_r1 = Inr st1"
    and n: "notice rt0 (name \<lparr>socket = 1, crooms = [r1], name = c1\<rparr>) '' disconnected'' c1 = Inr n"
    and again: "cleanupClient rt0 c1 st1 = Inr st1"
    and e: "cleanupClient rt0 c1 (socket_end 1 st1) = Inr (socket_end 1 st1)"
    and w: "\<forall>d dc. clients two_in_r1 d = Some dc \<and> d \<noteq> c1 \<and> alive two_in_r1 (socket dc) \<longrightarrow>
          written (sockets st1 (socket dc)) =
            written (sockets two_in_r1 (socket dc)) @
              map (\<lambda>room. buildTextFrame (JSON_stringify rt0 n))
                (filter (\<lambda>room. d \<in> set (members_of two_in_r1 room))
                   (crooms \<lparr>socket = 1, crooms = [r1], name = c1\<rparr>))"
    using cleanup_twice [OF two_in_r1_fields(6) c(1), of 1] by blast
  have nv: "n = Obj [(''type'', Val (JStr (jsstr ''notice''))),
                     (''message'', Val (JStr (jsstr ''c1'' @ jsstr '' disconnected''))),
                     (''from'', Val c1)]"
    using n by (simp add: notice_def c1_def)
  have w2: "written (sockets st1 2) =
       written (sockets two_in_r1 2) @ [buildTextFrame (JSON_stringify rt0 n)]"
    using w[rule_format, of c2 "\<lparr>socket = 2, crooms = [r1], name = c2\<rparr>"] c a
    by (simp add: m sample_ids)
  have m2: "members_of st1 r1 = [c2]"
    by (simp add: cleanup_members_of[OF c(1) r] m set_delete_def sample_ids)
  show ?thesis
    using two_in_r1_fields(6) c a r w2 again e m2 unfolding nv by blast
qed




text \<open>
  C10. A private message to an identifier with no live connection (it is not in the
  \<^verbatim>\<open>clients\<close> map, or the socket of its client is destroyed) does nothing but send
  the echo, tagged private, to the sender: when the sender's socket takes writes, the echo
  frame is the one chunk added to it.
\<close>

theorem private_echo:
  assumes "p_type m = JStr (jsstr ''msg'')" and "truthy (p_to m)"
    and "\<forall>c. clients st (p_to m) = Some c \<longrightarrow> destroyed (sockets st (socket c))"
  shows "handleParsed rt clientId (Parsed m) st =
           Inr (sendToClient rt clientId
                  (Obj [(''type'', Val (JStr (jsstr ''msg''))), (''from'', Val clientId),
                        (''to'', Val (p_to m)), (''text'', Val (p_text m)),
                        (''private'', Val (JBool True))]) st)
         \<and> (\<forall>c. clients st clientId = Some c \<and> alive st (socket c) \<longrightarrow>
               written (sockets
                 (sendToClient rt clientId
                    (Obj [(''type'', Val (JStr (jsstr ''msg''))), (''from'', Val clientId),
                          (''to'', Val (p_to m)), (''text'', Val (p_text m)),
                          (''private'', Val (JBool True))]) st) (socket c)) =
               written (sockets st (socket c)) @
                 [buildTextFrame (JSON_stringify rt
                    (Obj [(''type'', Val (JStr (jsstr ''msg''))), (''from'', Val clientId),
                          (''to'', Val (p_to m)), (''text'', Val (p_text m)),
                          (''private'', Val (JBool True))]))])"
proof -
  have t: "JStr (jsstr ''msg'') \<noteq> JStr (jsstr ''join'')" "JStr (jsstr ''msg'') \<noteq> JStr (jsstr ''leave'')"
    by (simp_all add: jsstr_def)
  show ?thesis
    using assms(1,2) t sendToClient_dead[OF assms(3)]
    by (auto simp: handleParsed_def Let_def sendToClient_self_written)
qed

theorem private_echo_witness:
  "p_type to_nobody = JStr (jsstr ''msg'') \<and> truthy (p_to to_nobody)
   \<and> clients two_clients (p_to to_nobody) = None
   \<and> clients two_clients c1 = Some \<lparr>socket = 1, crooms = [], name = c1\<rparr>
   \<and> alive two_clients 1
   \<and> (case handleParsed rt0 c1 (Parsed to_nobody) two_clients of
         Inl e \<Rightarrow> False
       | Inr st' \<Rightarrow>
           written (sockets st' 1) =
             written (sockets two_clients 1) @
               [buildTextFrame (JSON_stringify rt0
                  (Obj [(''type'', Val (JStr (jsstr ''msg''))), (''from'', Val c1),
                        (''to'', Val (JStr (jsstr ''c9''))), (''text'', Val (JStr (jsstr ''secret''))),
                        (''private'', Val (JBool True))]))])
   \<and> p_type to_peer = JStr (jsstr ''msg'') \<and> truthy (p_to to_peer)
   \<and> clients (socket_destroy 2 two_clients) (p_to to_peer) =
         Some \<lparr>socket = 2, crooms = [], name = c2\<rparr>
   \<and> destroyed (sockets (socket_destroy 2 two_clients) 2)
   \<and> alive (socket_destroy 2 two_clients) 1
   \<and> (case handleParsed rt0 c1 (Parsed to_peer) (socket_destroy 2 two_clients) of
         Inl e \<Rightarrow> False
       | Inr st' \<Rightarrow>
           written (sockets st' 2) = written (sockets two_clients 2)
           \<and> written (sockets st' 1) =
             written (sockets two_clients 1) @
               [buildTextFrame (JSON_stringify rt0
                  (Obj [(''type'', Val (JStr (jsstr ''msg''))), (''from'', Val c1),
                        (''to'', Val c2), (''text'', Val (JStr (jsstr ''secret''))),
                        (''private'', Val (JBool True))]))])"
proof -
  have 1: "p_type to_nobody = JStr (jsstr ''msg'')" by (simp add: to_nobody_def)
  have 2: "truthy (p_to to_nobody)" by (simp add: to_nobody_def jsstr_def)
  have 3: "clients two_clients (p_to to_nobody) = None"
    by (simp add: two_clients_fields to_nobody_def c1_def c2_def jsstr_def)
  have 4: "clients two_clients c1 = Some \<lparr>socket = 1, crooms = [], name = c1\<rparr>"
    by (simp add: two_clients_fields sample_ids)
  have 5: "alive two_clients 1" by (simp add: alive_def two_clients_fields)
  have 6: "p_type to_peer = JStr (jsstr ''msg'')" by (simp add: to_peer_def)
  have 7: "truthy (p_to to_peer)" by (simp add: to_peer_def c2_def jsstr_def)
  have 8: "clients (socket_destroy 2 two_clients) (p_to to_peer) =
             Some \<lparr>socket = 2, crooms = [], name = c2\<rparr>"
    by (simp add: two_clients_fields to_peer_def sample_ids)
  have 9: "destroyed (sockets (socket_destroy 2 two_clients) 2)"
    by (simp add: socket_destroy_def)
  have 10: "alive (socket_destroy 2 two_clients) 1"
    by (simp add: alive_def socket_destroy_def two_clients_fields)
  have 11: "clients (socket_destroy 2 two_clients) c1 = Some \<lparr>socket = 1, crooms = [], name = c1\<rparr>"
    by (simp add: two_clients_fields sample_ids)
  have 12: "\<forall>c. clients two_clients (p_to to_nobody) = Some c \<longrightarrow>
              destroyed (sockets two_clients (socket c))"
    using 3 by simp
  have 13: "\<forall>c. clients (socket_destroy 2 two_clients) (p_to to_peer) = Some c \<longrightarrow>
              destroyed (sockets (socket_destroy 2 two_clients) (socket c))"
    using 8 9 by simp
  have first: "case handleParsed rt0 c1 (Parsed to_nobody) two_clients of
         Inl e \<Rightarrow> False
       | Inr st' \<Rightarrow>
           written (sockets st' 1) =
             written (sockets two_clients 1) @
               [buildTextFrame (JSON_stringify rt0
                  (Obj [(''type'', Val (JStr (jsstr ''msg''))), (''from'', Val c1),
                        (''to'', Val (JStr (jsstr ''c9''))), (''text'', Val (JStr (jsstr ''secret''))),
                        (''private'', Val (JBool True))]))]"
    using private_echo [OF 1 2 12, of rt0 c1] 4 5
    by (simp add: to_nobody_def)
  have second: "case handleParsed rt0 c1 (Parsed to_peer) (socket_destroy 2 two_clients) of
         Inl e \<Rightarrow> False
       | Inr st' \<Rightarrow>
           written (sockets st' 2) = written (sockets two_clients 2)
           \<and> written (sockets st' 1) =
             written (sockets two_clients 1) @
               [buildTextFrame (JSON_stringify rt0
                  (Obj [(''type'', Val (JStr (jsstr ''msg''))), (''from'', Val c1),
                        (''to'', Val c2), (''text'', Val (JStr (jsstr ''secret''))),
                        (''private'', Val (JBool True))]))]"
    using private_echo [OF 6 7 13, of rt0 c1] 11 10
    by (simp add: to_peer_def sendToClient_def socket_write_def alive_def)
  show ?thesis
    using 1 2 3 4 5 6 7 8 9 10 first second by blast
qed

end
